theory Spec2Isabelle
  imports Complex_Main "HOL-Library.AList" "HOL-Library.Multiset"
begin

section \<open>Fast-BM25: the index, its construction, scoring, top-N retrieval and persistence\<close>

text \<open>
  A shallow embedding of \<^verbatim>\<open>src/fast_bm25.py\<close> (class \<^verbatim>\<open>BM25\<close>).

  \<^item> Python integers are \<open>int\<close>; Python floats are idealised as \<open>real\<close> (no rounding,
    no infinities, no NaN), so \<open>math.log\<close> is \<open>ln\<close> on its domain. A score of the model is
    the exact value of the expression the program evaluates; the double the program returns
    differs from it by rounding.
  \<^item> A Python \<^verbatim>\<open>dict\<close> is an association list in insertion order: \<open>map_of\<close> is the
    lookup, \<open>AList.update\<close> is \<^verbatim>\<open>d[k] = v\<close> (in place when the key is present, appended
    otherwise) and \<open>AList.delete\<close> is \<^verbatim>\<open>del d[k]\<close>.
  \<^item> Every exception the source can raise is a value \<open>Inl e\<close> of \<open>error + 'a\<close>.
  \<^item> The two \<^verbatim>\<open>print\<close> calls of \<^verbatim>\<open>_initialize\<close> (the number of dropped terms, and the
    warning when the average IDF is negative) change no state and are left out.
  \<^item> The \<^verbatim>\<open>assert\<close> of \<^verbatim>\<open>get_top_n\<close> is executed (Python run without \<^verbatim>\<open>-O\<close>).
\<close>

subsection \<open>Errors and the Python primitives the class uses\<close>

datatype error =
  ZeroDivisionError | KeyError | IndexError | AssertionError | ValueError | FileNotFoundError

text \<open>\<^verbatim>\<open>x / y\<close> on numbers: raises when the divisor is zero.\<close>

definition py_div :: "real \<Rightarrow> real \<Rightarrow> error + real" where
  "py_div x y = (if y = 0 then Inl ZeroDivisionError else Inr (x / y))"

text \<open>\<^verbatim>\<open>math.log(x)\<close>: raises outside the positive numbers.\<close>

definition py_log :: "real \<Rightarrow> error + real" where
  "py_log x = (if x \<le> 0 then Inl ValueError else Inr (ln x))"

text \<open>\<^verbatim>\<open>xs[i]\<close> on a list: a negative index counts from the end.\<close>

definition py_index :: "'a list \<Rightarrow> int \<Rightarrow> error + 'a" where
  "py_index xs i =
     (if 0 \<le> i \<and> i < int (length xs) then Inr (xs ! nat i)
      else if i < 0 \<and> - int (length xs) \<le> i then Inr (xs ! nat (int (length xs) + i))
      else Inl IndexError)"

text \<open>\<^verbatim>\<open>del d[k]\<close>: raises when the key is absent.\<close>

definition py_del :: "'k \<Rightarrow> ('k \<times> 'v) list \<Rightarrow> error + ('k \<times> 'v) list" where
  "py_del k d = (if map_of d k = None then Inl KeyError else Inr (AList.delete k d))"

subsection \<open>The index\<close>

type_synonym postings = "(int \<times> int) list"

record bm25 =
  k1 :: real
  b :: real
  alpha :: real
  avgdl :: real
  t2d :: "(string \<times> postings) list"
  idf :: "(string \<times> real) list"
  doc_len :: "int list"
  average_idf :: "real option"

text \<open>The property \<^verbatim>\<open>corpus_size\<close>.\<close>

definition corpus_size :: "bm25 \<Rightarrow> int" where
  "corpus_size self = int (length (doc_len self))"

subsection \<open>Construction (\<^verbatim>\<open>__init__\<close> and \<^verbatim>\<open>_initialize\<close>)\<close>

text \<open>
  Lines 67 to 71, one word of document \<open>i\<close>: the entry of the word is created empty when
  absent, the count for \<open>i\<close> is created as 0 when absent, then incremented.
\<close>

definition add_word :: "int \<Rightarrow> string \<Rightarrow> (string \<times> postings) list \<Rightarrow> (string \<times> postings) list" where
  "add_word i word t =
     (let docs = (case map_of t word of None \<Rightarrow> [] | Some d \<Rightarrow> d);
          c = (case map_of docs i of None \<Rightarrow> 0 | Some f \<Rightarrow> f)
      in AList.update word (AList.update i (c + 1) docs) t)"

text \<open>Lines 63 to 71, the loop over \<^verbatim>\<open>enumerate(corpus)\<close>, started at position \<open>i\<close>.\<close>

fun index_corpus ::
  "int \<Rightarrow> string list list \<Rightarrow> int list \<times> (string \<times> postings) list
     \<Rightarrow> int list \<times> (string \<times> postings) list" where
  "index_corpus i [] (dl, t) = (dl, t)"
| "index_corpus i (document # rest) (dl, t) =
     index_corpus (i + 1) rest (dl @ [int (length document)], fold (add_word i) document t)"

text \<open>
  Lines 75 to 81, the loop over \<^verbatim>\<open>self.t2d.items()\<close>; \<open>a\<close> is \<^verbatim>\<open>self.alpha\<close> and \<open>n\<close> is
  \<^verbatim>\<open>self.corpus_size\<close>. The state is the IDF table and the list \<^verbatim>\<open>to_delete\<close>.
\<close>

fun compute_idf ::
  "real \<Rightarrow> int \<Rightarrow> (string \<times> postings) list \<Rightarrow> (string \<times> real) list \<times> string list
     \<Rightarrow> error + ((string \<times> real) list \<times> string list)" where
  "compute_idf a n [] acc = Inr acc"
| "compute_idf a n ((word, docs) # rest) (tab, to_delete) =
     (case py_log (of_int (n - int (length docs)) + 0.5) of
        Inl e \<Rightarrow> Inl e
      | Inr l1 \<Rightarrow>
          (case py_log (of_int (int (length docs)) + 0.5) of
             Inl e \<Rightarrow> Inl e
           | Inr l2 \<Rightarrow>
               (if l1 - l2 > a
                then compute_idf a n rest (AList.update word (l1 - l2) tab, to_delete)
                else compute_idf a n rest (tab, to_delete @ [word]))))"

text \<open>Lines 83 and 84, the loop deleting the dropped terms.\<close>

fun delete_words ::
  "string list \<Rightarrow> (string \<times> postings) list \<Rightarrow> error + (string \<times> postings) list" where
  "delete_words [] t = Inr t"
| "delete_words (word # ws) t =
     (case py_del word t of Inl e \<Rightarrow> Inl e | Inr t' \<Rightarrow> delete_words ws t')"

definition initialize :: "bm25 \<Rightarrow> string list list \<Rightarrow> error + bm25" where
  "initialize self corpus =
     (case index_corpus 0 corpus (doc_len self, t2d self) of (dl, t) \<Rightarrow>
      (case py_div (of_int (sum_list dl)) (of_int (int (length dl))) of
        Inl e \<Rightarrow> Inl e
      | Inr avg \<Rightarrow>
      (case compute_idf (alpha self) (int (length dl)) t (idf self, []) of
        Inl e \<Rightarrow> Inl e
      | Inr (tab, to_delete) \<Rightarrow>
      (case delete_words to_delete t of
        Inl e \<Rightarrow> Inl e
      | Inr t' \<Rightarrow>
      (case py_div (sum_list (map snd tab)) (of_int (int (length tab))) of
        Inl e \<Rightarrow> Inl e
      | Inr avg_idf \<Rightarrow>
          Inr (self\<lparr>avgdl := avg, t2d := t', idf := tab, doc_len := dl,
                    average_idf := Some avg_idf\<rparr>))))))"

text \<open>
  The constructor \<^verbatim>\<open>BM25(corpus, k1, b, alpha)\<close>. The attribute \<^verbatim>\<open>average_idf\<close> exists only
  after \<^verbatim>\<open>_initialize\<close> has run.
\<close>

definition BM25 :: "string list list \<Rightarrow> real \<Rightarrow> real \<Rightarrow> real \<Rightarrow> error + bm25" where
  "BM25 corpus pk1 pb palpha =
     (let self = \<lparr>k1 = pk1, b = pb, alpha = palpha, avgdl = 0, t2d = [], idf = [],
                  doc_len = [], average_idf = None\<rparr>
      in if corpus \<noteq> [] then initialize self corpus else Inr self)"

definition PARAM_K1 :: real where "PARAM_K1 = 1.5"
definition PARAM_B :: real where "PARAM_B = 0.75"
definition IDF_CUTOFF :: real where "IDF_CUTOFF = 3"

subsection \<open>Scoring (\<^verbatim>\<open>get_score\<close>)\<close>

text \<open>
  Lines 114 to 118, the loop over the query; \<open>nc\<close> and \<open>dc\<close> are \<^verbatim>\<open>numerator_constant\<close> and
  \<^verbatim>\<open>denominator_constant\<close>, \<open>score\<close> is the running score.
\<close>

fun score_loop :: "bm25 \<Rightarrow> int \<Rightarrow> real \<Rightarrow> real \<Rightarrow> string list \<Rightarrow> real \<Rightarrow> error + real" where
  "score_loop self index nc dc [] score = Inr score"
| "score_loop self index nc dc (token # rest) score =
     (case map_of (t2d self) token of
        None \<Rightarrow> score_loop self index nc dc rest score
      | Some docs \<Rightarrow>
          (case map_of docs index of
             None \<Rightarrow> score_loop self index nc dc rest score
           | Some df \<Rightarrow>
               (case map_of (idf self) token of
                  None \<Rightarrow> Inl KeyError
                | Some w \<Rightarrow>
                    (case py_div (w * of_int df * nc) (of_int df + dc) of
                       Inl e \<Rightarrow> Inl e
                     | Inr c \<Rightarrow> score_loop self index nc dc rest (score + c)))))"

definition get_score :: "bm25 \<Rightarrow> string list \<Rightarrow> int \<Rightarrow> error + real" where
  "get_score self query index =
     (let numerator_constant = k1 self + 1 in
      case py_index (doc_len self) index of
        Inl e \<Rightarrow> Inl e
      | Inr len \<Rightarrow>
          (case py_div (b self * of_int len) (avgdl self) of
             Inl e \<Rightarrow> Inl e
           | Inr r \<Rightarrow>
               score_loop self index numerator_constant (k1 self * (1 - b self + r)) query 0))"

subsection \<open>Top-N retrieval (\<^verbatim>\<open>get_top_n\<close>)\<close>

text \<open>The set \<^verbatim>\<open>indexes\<close> of lines 140 to 145.\<close>

definition indexes :: "bm25 \<Rightarrow> string list \<Rightarrow> int set" where
  "indexes self query =
     set (concat (map (\<lambda>token. case map_of (t2d self) token of
                                  None \<Rightarrow> [] | Some docs \<Rightarrow> map fst docs) query))"

text \<open>The key function applied to every element, in order; the first exception wins.\<close>

fun with_keys :: "('a \<Rightarrow> error + real) \<Rightarrow> 'a list \<Rightarrow> error + (real \<times> 'a) list" where
  "with_keys key [] = Inr []"
| "with_keys key (x # xs) =
     (case key x of
        Inl e \<Rightarrow> Inl e
      | Inr v \<Rightarrow> (case with_keys key xs of Inl e \<Rightarrow> Inl e | Inr r \<Rightarrow> Inr ((v, x) # r)))"

text \<open>
  \<^verbatim>\<open>heapq.nlargest(n, iterable, key)\<close> on the elements in iteration order \<open>xs\<close>: the library
  documents it as \<^verbatim>\<open>sorted(iterable, key=key, reverse=True)[:n]\<close>, a stable sort. \<open>n\<close> is
  a Python integer: for \<open>n \<le> 0\<close> the library pairs the elements with the empty
  \<^verbatim>\<open>range(0, -n, -1)\<close> and returns the empty list without calling the key.
\<close>

definition nlargest :: "int \<Rightarrow> 'a list \<Rightarrow> ('a \<Rightarrow> error + real) \<Rightarrow> error + 'a list" where
  "nlargest n xs key =
     (if n \<le> 0 then Inr []
      else case with_keys key xs of
             Inl e \<Rightarrow> Inl e
           | Inr kxs \<Rightarrow> Inr (take (nat n) (map snd (sort_key (\<lambda>p. - fst p) kxs))))"

text \<open>The list comprehension \<^verbatim>\<open>[documents[i] for i in ...]\<close>.\<close>

fun lookup_all :: "'d list \<Rightarrow> int list \<Rightarrow> error + 'd list" where
  "lookup_all documents [] = Inr []"
| "lookup_all documents (i # rest) =
     (case py_index documents i of
        Inl e \<Rightarrow> Inl e
      | Inr d \<Rightarrow> (case lookup_all documents rest of Inl e \<Rightarrow> Inl e | Inr r \<Rightarrow> Inr (d # r)))"

text \<open>
  The call \<^verbatim>\<open>heapq.nlargest(n, indexes, key=...)\<close> of line 146. The order in which CPython
  iterates over a set is not fixed by the source, so it is the parameter \<open>iter\<close>.
\<close>

definition top_indexes :: "bm25 \<Rightarrow> (int set \<Rightarrow> int list) \<Rightarrow> string list \<Rightarrow> int \<Rightarrow> error + int list" where
  "top_indexes self iter query n =
     nlargest n (iter (indexes self query)) (\<lambda>idx. get_score self query idx)"

definition get_top_n ::
  "bm25 \<Rightarrow> (int set \<Rightarrow> int list) \<Rightarrow> string list \<Rightarrow> 'd list \<Rightarrow> int \<Rightarrow> error + 'd list" where
  "get_top_n self iter query documents n =
     (if corpus_size self \<noteq> int (length documents) then Inl AssertionError
      else case top_indexes self iter query n of
             Inl e \<Rightarrow> Inl e
           | Inr is \<Rightarrow> lookup_all documents is)"

text \<open>An iteration order is any duplicate-free enumeration of the set.\<close>

definition set_order :: "(int set \<Rightarrow> int list) \<Rightarrow> bool" where
  "set_order iter = (\<forall>S. finite S \<longrightarrow> set (iter S) = S \<and> distinct (iter S))"

subsection \<open>Persistence (\<^verbatim>\<open>save\<close> and \<^verbatim>\<open>load\<close>)\<close>

text \<open>\<^verbatim>\<open>str(n)\<close> for an integer: decimal digits, with a minus sign when negative.\<close>

definition digit_char :: "nat \<Rightarrow> char" where
  "digit_char d = ''0123456789'' ! d"

fun str_nat :: "nat \<Rightarrow> string" where
  "str_nat n = (if n < 10 then [digit_char n] else str_nat (n div 10) @ [digit_char (n mod 10)])"

declare str_nat.simps [simp del]

definition str_int :: "int \<Rightarrow> string" where
  "str_int i = (if i < 0 then CHR ''-'' # str_nat (nat (- i)) else str_nat (nat i))"

text \<open>
  \<^verbatim>\<open>int(s)\<close> for a string, on plain decimal literals: an optional minus sign and at least one
  digit; anything else is a \<^verbatim>\<open>ValueError\<close>.
\<close>

definition digit_val :: "char \<Rightarrow> nat option" where
  "digit_val c =
     (let v = (of_char c :: nat) in if 48 \<le> v \<and> v \<le> 57 then Some (v - 48) else None)"

fun parse_digits :: "nat \<Rightarrow> string \<Rightarrow> nat option" where
  "parse_digits acc [] = Some acc"
| "parse_digits acc (c # cs) =
     (case digit_val c of None \<Rightarrow> None | Some d \<Rightarrow> parse_digits (10 * acc + d) cs)"

definition parse_nat :: "string \<Rightarrow> nat option" where
  "parse_nat s = (if s = [] then None else parse_digits 0 s)"

definition py_int :: "string \<Rightarrow> error + int" where
  "py_int s =
     (case s of
        [] \<Rightarrow> Inl ValueError
      | c # cs \<Rightarrow>
          if c = CHR ''-''
          then (case parse_nat cs of None \<Rightarrow> Inl ValueError | Some n \<Rightarrow> Inr (- int n))
          else (case parse_nat s of None \<Rightarrow> Inl ValueError | Some n \<Rightarrow> Inr (int n)))"

text \<open>
  The object \<^verbatim>\<open>json.load\<close> returns for a file \<^verbatim>\<open>json.dump\<close> wrote from \<^verbatim>\<open>json_object\<close>: JSON
  object keys are strings, so the integer keys of every posting table come back as the
  strings \<^verbatim>\<open>json.dump\<close> made of them.
\<close>

record json_object =
  j_k1 :: real
  j_b :: real
  j_alpha :: real
  j_avgdl :: real
  j_t2d :: "(string \<times> (string \<times> int) list) list"
  j_idf :: "(string \<times> real) list"
  j_doc_len :: "int list"

definition json_dump :: "bm25 \<Rightarrow> json_object" where
  "json_dump self =
     \<lparr>j_k1 = k1 self, j_b = b self, j_alpha = alpha self, j_avgdl = avgdl self,
      j_t2d = map (\<lambda>(tok, docs). (tok, map (\<lambda>(i, f). (str_int i, f)) docs)) (t2d self),
      j_idf = idf self, j_doc_len = doc_len self\<rparr>"

text \<open>The file system: the files written so far, by name.\<close>

type_synonym files = "string \<rightharpoonup> json_object"

definition save :: "bm25 \<Rightarrow> string \<Rightarrow> files \<Rightarrow> files" where
  "save self filename fs = fs(filename @ ''.json'' \<mapsto> json_dump self)"

text \<open>The dict comprehension \<^verbatim>\<open>{int(i): f for i, f in items}\<close> of line 162.\<close>

fun int_keys :: "(string \<times> int) list \<Rightarrow> postings \<Rightarrow> error + postings" where
  "int_keys [] acc = Inr acc"
| "int_keys ((i, f) # rest) acc =
     (case py_int i of Inl e \<Rightarrow> Inl e | Inr k \<Rightarrow> int_keys rest (AList.update k f acc))"

text \<open>The loop of lines 161 and 162 over the terms of the loaded posting table.\<close>

fun restore_t2d :: "(string \<times> (string \<times> int) list) list \<Rightarrow> error + (string \<times> postings) list" where
  "restore_t2d [] = Inr []"
| "restore_t2d ((tok, docs) # rest) =
     (case int_keys docs [] of
        Inl e \<Rightarrow> Inl e
      | Inr d \<Rightarrow> (case restore_t2d rest of Inl e \<Rightarrow> Inl e | Inr r \<Rightarrow> Inr ((tok, d) # r)))"

definition load :: "string \<Rightarrow> files \<Rightarrow> error + bm25" where
  "load filename fs =
     (case fs (filename @ ''.json'') of
        None \<Rightarrow> Inl FileNotFoundError
      | Some json \<Rightarrow>
          (case restore_t2d (j_t2d json) of
             Inl e \<Rightarrow> Inl e
           | Inr t \<Rightarrow>
               (case BM25 [] PARAM_K1 PARAM_B IDF_CUTOFF of
                  Inl e \<Rightarrow> Inl e
                | Inr bm25 \<Rightarrow>
                    Inr (bm25\<lparr>k1 := j_k1 json, b := j_b json, alpha := j_alpha json,
                              avgdl := j_avgdl json, t2d := t, idf := j_idf json,
                              doc_len := j_doc_len json\<rparr>))))"

section \<open>Notions used to state the properties\<close>

text \<open>The frequency stored for a term and a document position, if any.\<close>

definition posting :: "(string \<times> postings) list \<Rightarrow> string \<Rightarrow> int \<Rightarrow> int option" where
  "posting t token index = (case map_of t token of None \<Rightarrow> None | Some docs \<Rightarrow> map_of docs index)"

text \<open>
  A posting table is a well-formed dict of dicts: no key occurs twice, and no term has an
  empty entry.
\<close>

definition t2d_ok :: "(string \<times> postings) list \<Rightarrow> bool" where
  "t2d_ok t = (distinct (map fst t) \<and>
      (\<forall>w docs. map_of t w = Some docs \<longrightarrow> distinct (map fst docs) \<and> docs \<noteq> []))"

text \<open>
  The document frequency of a term, in the words of the specification: the number of
  documents of the corpus that contain it.
\<close>

definition doc_freq :: "string list list \<Rightarrow> string \<Rightarrow> nat" where
  "doc_freq corpus w = length (filter (\<lambda>d. w \<in> set d) corpus)"

text \<open>The IDF weight of the specification for corpus size \<open>n\<close> and document frequency \<open>df\<close>.\<close>

definition idf_value :: "int \<Rightarrow> nat \<Rightarrow> real" where
  "idf_value n df = ln (of_int (n - int df) + 0.5) - ln (of_int (int df) + 0.5)"

text \<open>The retention test on an entry of the posting table, and on a term of the corpus.\<close>

definition kept :: "real \<Rightarrow> int \<Rightarrow> string \<times> postings \<Rightarrow> bool" where
  "kept a n e = (idf_value n (length (snd e)) > a)"

definition keeps :: "string list list \<Rightarrow> real \<Rightarrow> string \<Rightarrow> bool" where
  "keeps corpus a w =
     (0 < doc_freq corpus w \<and> a < idf_value (int (length corpus)) (doc_freq corpus w))"

text \<open>The posting table after the counting loop, before any term is dropped.\<close>

definition counted :: "string list list \<Rightarrow> (string \<times> postings) list" where
  "counted corpus = snd (index_corpus 0 corpus ([], []))"

text \<open>The index that a successful construction from a non-empty corpus returns.\<close>

definition built :: "string list list \<Rightarrow> real \<Rightarrow> real \<Rightarrow> real \<Rightarrow> bm25" where
  "built corpus pk1 pb palpha =
     (let n = int (length corpus); t = filter (kept palpha n) (counted corpus);
          tab = map (\<lambda>e. (fst e, idf_value n (length (snd e)))) t
      in \<lparr>k1 = pk1, b = pb, alpha = palpha,
          avgdl = of_int (sum_list (map (\<lambda>d. int (length d)) corpus)) / of_int n,
          t2d = t, idf = tab, doc_len = map (\<lambda>d. int (length d)) corpus,
          average_idf = Some (sum_list (map snd tab) / of_int (int (length tab)))\<rparr>)"

text \<open>The index that the constructor returns for the empty corpus.\<close>

definition empty_index :: "real \<Rightarrow> real \<Rightarrow> real \<Rightarrow> bm25" where
  "empty_index pk1 pb pa =
     \<lparr>k1 = pk1, b = pb, alpha = pa, avgdl = 0, t2d = [], idf = [], doc_len = [],
      average_idf = None\<rparr>"

text \<open>
  The BM25 sum of the specification. \<open>length_norm\<close> is the length normalisation
  \<open>k1 * (1 - b + b * len / avgdl)\<close> of a document; a query term occurrence is \<open>retained\<close>
  for a document when it has an IDF entry and a posting there; \<open>term_score\<close> is what one
  occurrence contributes, \<open>idf * tf * (k1 + 1) / (tf + length_norm)\<close>.
\<close>

definition length_norm :: "bm25 \<Rightarrow> int \<Rightarrow> real" where
  "length_norm self index =
     k1 self * (1 - b self + b self * of_int (doc_len self ! nat index) / avgdl self)"

definition retained :: "bm25 \<Rightarrow> int \<Rightarrow> string \<Rightarrow> bool" where
  "retained self index token =
     (map_of (idf self) token \<noteq> None \<and> posting (t2d self) token index \<noteq> None)"

definition term_score :: "bm25 \<Rightarrow> int \<Rightarrow> string \<Rightarrow> real" where
  "term_score self index token =
     (case map_of (idf self) token of
        None \<Rightarrow> 0
      | Some w \<Rightarrow>
          (case posting (t2d self) token index of
             None \<Rightarrow> 0
           | Some tf \<Rightarrow> w * of_int tf * (k1 self + 1) / (of_int tf + length_norm self index)))"

definition bm25_sum :: "bm25 \<Rightarrow> string list \<Rightarrow> int \<Rightarrow> real" where
  "bm25_sum self query index =
     sum_list (map (term_score self index) (filter (retained self index) query))"

text \<open>The two tables have the same terms.\<close>

definition keys_agree :: "bm25 \<Rightarrow> bool" where
  "keys_agree self = (\<forall>w. map_of (idf self) w = None \<longleftrightarrow> map_of (t2d self) w = None)"

text \<open>The value of a key function where it returns one, and the score of a document.\<close>

definition key_value :: "('a \<Rightarrow> error + real) \<Rightarrow> 'a \<Rightarrow> real" where
  "key_value key x = (case key x of Inl e \<Rightarrow> 0 | Inr v \<Rightarrow> v)"

definition score_of :: "bm25 \<Rightarrow> string list \<Rightarrow> int \<Rightarrow> real" where
  "score_of self query index = key_value (get_score self query) index"

text \<open>A small corpus and the index built from it with \<open>k1 = 1.5\<close>, \<open>b = 0.75\<close>, \<open>alpha = 0\<close>.\<close>

definition example_corpus :: "string list list" where
  "example_corpus = [[''a''], [''b''], [''c'', ''a'']]"

definition example_index :: bm25 where
  "example_index =
     \<lparr>k1 = 1.5, b = 0.75, alpha = 0, avgdl = 4 / 3,
      t2d = [(''b'', [(1, 1)]), (''c'', [(2, 1)])],
      idf = [(''b'', ln (5 / 2) - ln (3 / 2)), (''c'', ln (5 / 2) - ln (3 / 2))],
      doc_len = [1, 1, 2], average_idf = Some (ln (5 / 2) - ln (3 / 2))\<rparr>"

text \<open>
  Two indexes built with a negative \<open>k1\<close>: from the corpus \<open>[[a, a], [b]]\<close> with
  \<open>k1 = -2\<close>, \<open>b = 0\<close>, \<open>alpha = -1\<close>, and from the corpus \<open>[[a], [b], [c]]\<close> with
  \<open>k1 = -1\<close>, \<open>b = 0\<close>, \<open>alpha = -1\<close>.
\<close>

definition twice_index :: bm25 where
  "twice_index =
     \<lparr>k1 = - 2, b = 0, alpha = - 1, avgdl = 3 / 2,
      t2d = [(''a'', [(0, 2)]), (''b'', [(1, 1)])], idf = [(''a'', 0), (''b'', 0)],
      doc_len = [2, 1], average_idf = Some 0\<rparr>"

definition singles_index :: bm25 where
  "singles_index =
     \<lparr>k1 = - 1, b = 0, alpha = - 1, avgdl = 1,
      t2d = [(''a'', [(0, 1)]), (''b'', [(1, 1)]), (''c'', [(2, 1)])],
      idf = [(''a'', ln (5 / 2) - ln (3 / 2)), (''b'', ln (5 / 2) - ln (3 / 2)),
             (''c'', ln (5 / 2) - ln (3 / 2))],
      doc_len = [1, 1, 1], average_idf = Some (ln (5 / 2) - ln (3 / 2))\<rparr>"



section \<open>Auxiliary facts\<close>

subsection \<open>The counting loop\<close>

lemma map_of_add_word:
  "map_of (add_word i w t) w' =
     (if w' = w then Some (AList.update i ((case posting t w i of None \<Rightarrow> 0 | Some f \<Rightarrow> f) + 1)
                             (case map_of t w of None \<Rightarrow> [] | Some d \<Rightarrow> d))
      else map_of t w')"
  by (simp add: add_word_def posting_def AList.update_conv' split: option.splits)

lemma keys_add_word: "fst ` set (add_word i w t) = insert w (fst ` set t)"
  by (simp add: add_word_def Let_def AList.dom_update)

lemma posting_add_word:
  "posting (add_word i w t) w' j =
     (if w' = w \<and> j = i then Some ((case posting t w i of None \<Rightarrow> 0 | Some f \<Rightarrow> f) + 1)
      else posting t w' j)"
  by (auto simp: posting_def map_of_add_word AList.update_conv' split: option.splits)

lemma t2d_ok_add_word: "t2d_ok t \<Longrightarrow> t2d_ok (add_word i w t)"
proof -
  assume ok: "t2d_ok t"
  have d: "distinct (map fst (add_word i w t))"
    using ok by (simp add: add_word_def Let_def t2d_ok_def AList.distinct_update)
  have "distinct (map fst docs) \<and> docs \<noteq> []" if "map_of (add_word i w t) w' = Some docs" for w' docs
  proof (cases "w' = w")
    case True
    then have "docs = AList.update i ((case posting t w i of None \<Rightarrow> 0 | Some f \<Rightarrow> f) + 1)
                             (case map_of t w of None \<Rightarrow> [] | Some d \<Rightarrow> d)"
      using that by (simp add: map_of_add_word)
    moreover have "distinct (map fst (case map_of t w of None \<Rightarrow> [] | Some d \<Rightarrow> d))"
      using ok by (auto simp: t2d_ok_def split: option.splits)
    ultimately show ?thesis by (simp add: AList.distinct_update)
  next
    case False
    then show ?thesis using that ok by (simp add: map_of_add_word t2d_ok_def)
  qed
  with d show ?thesis unfolding t2d_ok_def by blast
qed

lemma keys_fold_add_word: "fst ` set (fold (add_word i) doc t) = fst ` set t \<union> set doc"
  by (induction doc arbitrary: t) (auto simp: keys_add_word)

lemma t2d_ok_fold_add_word: "t2d_ok t \<Longrightarrow> t2d_ok (fold (add_word i) doc t)"
  by (induction doc arbitrary: t) (auto simp: t2d_ok_add_word)

lemma posting_fold_add_word:
  "posting (fold (add_word i) doc t) w j =
     (if j = i \<and> w \<in> set doc
      then Some ((case posting t w i of None \<Rightarrow> 0 | Some f \<Rightarrow> f) + int (count_list doc w))
      else posting t w j)"
proof (induction doc arbitrary: t)
  case Nil
  then show ?case by simp
next
  case (Cons x doc)
  show ?case
    by (auto simp: Cons.IH posting_add_word count_notin split: option.splits)
qed

lemma index_corpus_doc_len:
  "fst (index_corpus i corpus (dl, t)) = dl @ map (\<lambda>d. int (length d)) corpus"
  by (induction corpus arbitrary: i dl t) auto

lemma index_corpus_keys:
  "fst ` set (snd (index_corpus i corpus (dl, t))) = fst ` set t \<union> \<Union> (set ` set corpus)"
  by (induction corpus arbitrary: i dl t) (auto simp: keys_fold_add_word)

lemma index_corpus_ok:
  "t2d_ok t \<Longrightarrow> t2d_ok (snd (index_corpus i corpus (dl, t)))"
  by (induction corpus arbitrary: i dl t) (auto simp: t2d_ok_fold_add_word)

lemma index_corpus_posting:
  assumes "\<forall>w j. posting t w j \<noteq> None \<longrightarrow> j < i"
  shows "posting (snd (index_corpus i corpus (dl, t))) w j =
     (if j < i then posting t w j
      else if j < i + int (length corpus) \<and> w \<in> set (corpus ! nat (j - i))
      then Some (int (count_list (corpus ! nat (j - i)) w)) else None)"
  using assms
proof (induction corpus arbitrary: i dl t)
  case Nil
  then show ?case by (cases "posting t w j") auto
next
  case (Cons d corpus)
  let ?t = "fold (add_word i) d t"
  have pre: "\<forall>w j. posting ?t w j \<noteq> None \<longrightarrow> j < i + 1"
  proof (intro allI impI)
    fix w j assume a: "posting ?t w j \<noteq> None"
    show "j < i + 1"
    proof (cases "j = i")
      case True then show ?thesis by simp
    next
      case False
      with a have "posting t w j \<noteq> None" by (simp add: posting_fold_add_word)
      with Cons.prems have "j < i" by blast
      then show ?thesis by simp
    qed
  qed
  have none: "posting t w i = None" for w
    using Cons.prems by (cases "posting t w i") auto
  show ?case
  proof (cases "j < i")
    case True
    then show ?thesis by (simp add: Cons.IH [OF pre] posting_fold_add_word)
  next
    case False
    show ?thesis
    proof (cases "j = i")
      case True
      then show ?thesis using Cons.IH [OF pre, of "dl @ [int (length d)]"]
        by (simp add: posting_fold_add_word none)
    next
      case ne: False
      with False have gt: "i < j" by simp
      then have "nat (j - i) = Suc (nat (j - (i + 1)))" by simp
      then show ?thesis using gt
        by (simp add: Cons.IH [OF pre] posting_fold_add_word none)
    qed
  qed
qed

subsection \<open>The IDF loop and the deletion loop\<close>

lemma update_fresh: "k \<notin> fst ` set al \<Longrightarrow> AList.update k v al = al @ [(k, v)]"
  by (induction al) auto

lemma compute_idf_Cons:
  assumes "int (length docs) \<le> n"
  shows "compute_idf a n ((w, docs) # rest) (tab, del) =
     (if idf_value n (length docs) > a
      then compute_idf a n rest (AList.update w (idf_value n (length docs)) tab, del)
      else compute_idf a n rest (tab, del @ [w]))"
proof -
  have l1: "py_log (of_int (n - int (length docs)) + 0.5) = Inr (ln (of_int (n - int (length docs)) + 0.5))"
    using assms by (simp add: py_log_def)
  have l2: "py_log (of_int (int (length docs)) + 0.5) = Inr (ln (of_int (int (length docs)) + 0.5))"
    by (simp add: py_log_def)
  show ?thesis unfolding compute_idf.simps l1 l2 idf_value_def sum.case ..
qed

lemma compute_idf_eq:
  assumes "distinct (map fst t)" "\<forall>e\<in>set t. int (length (snd e)) \<le> n"
    "fst ` set tab \<inter> fst ` set t = {}"
  shows "compute_idf a n t (tab, del) =
     Inr (tab @ map (\<lambda>e. (fst e, idf_value n (length (snd e)))) (filter (kept a n) t),
          del @ map fst (filter (\<lambda>e. \<not> kept a n e) t))"
  using assms
proof (induction t arbitrary: tab del)
  case Nil
  then show ?case by simp
next
  case (Cons e t)
  obtain w docs where e: "e = (w, docs)" by (cases e)
  have le: "int (length docs) \<le> n" using Cons.prems(2) e by simp
  note step = compute_idf_Cons [OF le]
  have fresh: "w \<notin> fst ` set tab" using Cons.prems(3) e by auto
  have d: "distinct (map fst t)" and b: "\<forall>e\<in>set t. int (length (snd e)) \<le> n"
    using Cons.prems by auto
  show ?case
  proof (cases "kept a n e")
    case True
    have disj: "fst ` set (tab @ [(w, idf_value n (length docs))]) \<inter> fst ` set t = {}"
      using Cons.prems(1,3) e by auto
    show ?thesis
      using True Cons.IH [OF d b disj, of del]
      by (simp add: e step kept_def update_fresh [OF fresh] del: compute_idf.simps)
  next
    case False
    have disj: "fst ` set tab \<inter> fst ` set t = {}"
      using Cons.prems(3) by auto
    show ?thesis
      using False Cons.IH [OF d b disj, of "del @ [w]"]
      by (simp add: e step kept_def del: compute_idf.simps)
  qed
qed

lemma delete_words_eq:
  assumes "distinct ws" "set ws \<subseteq> fst ` set t" "distinct (map fst t)"
  shows "delete_words ws t = Inr (filter (\<lambda>e. fst e \<notin> set ws) t)"
  using assms
proof (induction ws arbitrary: t)
  case Nil
  then show ?case by simp
next
  case (Cons w ws)
  have "map_of t w \<noteq> None" using Cons.prems(2) by (simp add: map_of_eq_None_iff)
  then have del: "py_del w t = Inr (AList.delete w t)" by (simp add: py_del_def)
  have 1: "distinct ws" using Cons.prems(1) by simp
  have 2: "set ws \<subseteq> fst ` set (AList.delete w t)"
  proof
    fix x assume x: "x \<in> set ws"
    then have "x \<noteq> w" using Cons.prems(1) by auto
    moreover from x obtain v where "(x, v) \<in> set t" using Cons.prems(2) by auto
    ultimately have "(x, v) \<in> set (AList.delete w t)" by (auto simp: AList.delete_eq)
    then show "x \<in> fst ` set (AList.delete w t)" by force
  qed
  have 3: "distinct (map fst (AList.delete w t))"
    using Cons.prems(3) by (simp add: AList.distinct_delete)
  have "filter (\<lambda>e. fst e \<notin> set ws) (AList.delete w t) = filter (\<lambda>e. fst e \<notin> set (w # ws)) t"
    by (induction t) (auto simp: AList.delete_eq)
  then show ?case using Cons.IH [OF 1 2 3] by (simp add: del)
qed

subsection \<open>The posting table after counting\<close>

lemma index_corpus_counted:
  "index_corpus 0 corpus ([], []) = (map (\<lambda>d. int (length d)) corpus, counted corpus)"
  using index_corpus_doc_len [of 0 corpus "[]" "[]"]
  by (simp add: counted_def prod_eq_iff)

lemma counted_ok: "t2d_ok (counted corpus)"
  unfolding counted_def by (rule index_corpus_ok) (simp add: t2d_ok_def)

lemma counted_distinct: "distinct (map fst (counted corpus))"
  using counted_ok by (simp add: t2d_ok_def)

lemma counted_keys: "fst ` set (counted corpus) = \<Union> (set ` set corpus)"
  unfolding counted_def by (simp add: index_corpus_keys)

lemma counted_posting:
  "posting (counted corpus) w j =
     (if 0 \<le> j \<and> j < int (length corpus) \<and> w \<in> set (corpus ! nat j)
      then Some (int (count_list (corpus ! nat j) w)) else None)"
  unfolding counted_def
  by (subst index_corpus_posting) (auto simp: posting_def)

lemma counted_entry:
  assumes "(w, docs) \<in> set (counted corpus)"
  shows "map_of (counted corpus) w = Some docs"
    and "distinct (map fst docs)"
    and "map_of docs j = posting (counted corpus) w j"
proof -
  show m: "map_of (counted corpus) w = Some docs"
    using assms counted_distinct by simp
  show "distinct (map fst docs)" using m counted_ok by (simp add: t2d_ok_def)
  show "map_of docs j = posting (counted corpus) w j" by (simp add: posting_def m)
qed

lemma counted_doc_keys:
  assumes "(w, docs) \<in> set (counted corpus)"
  shows "fst ` set docs = int ` {i. i < length corpus \<and> w \<in> set (corpus ! i)}"
proof -
  have "j \<in> fst ` set docs \<longleftrightarrow> j \<in> int ` {i. i < length corpus \<and> w \<in> set (corpus ! i)}" for j
  proof -
    have "j \<in> fst ` set docs \<longleftrightarrow> map_of docs j \<noteq> None"
      by (simp add: map_of_eq_None_iff)
    also have "\<dots> \<longleftrightarrow> 0 \<le> j \<and> j < int (length corpus) \<and> w \<in> set (corpus ! nat j)"
      by (simp add: counted_entry(3) [OF assms] counted_posting)
    also have "\<dots> \<longleftrightarrow> j \<in> int ` {i. i < length corpus \<and> w \<in> set (corpus ! i)}"
    proof
      assume a: "0 \<le> j \<and> j < int (length corpus) \<and> w \<in> set (corpus ! nat j)"
      then have "nat j \<in> {i. i < length corpus \<and> w \<in> set (corpus ! i)}" by auto
      then have "int (nat j) \<in> int ` {i. i < length corpus \<and> w \<in> set (corpus ! i)}"
        by (rule imageI)
      with a show "j \<in> int ` {i. i < length corpus \<and> w \<in> set (corpus ! i)}" by simp
    next
      assume "j \<in> int ` {i. i < length corpus \<and> w \<in> set (corpus ! i)}"
      then show "0 \<le> j \<and> j < int (length corpus) \<and> w \<in> set (corpus ! nat j)" by auto
    qed
    finally show ?thesis .
  qed
  then show ?thesis by blast
qed

lemma counted_length:
  assumes "(w, docs) \<in> set (counted corpus)"
  shows "length docs = doc_freq corpus w"
proof -
  have "length docs = card (fst ` set docs)"
    using counted_entry(2) [OF assms] distinct_card [of "map fst docs"] by simp
  also have "\<dots> = card {i. i < length corpus \<and> w \<in> set (corpus ! i)}"
    by (simp add: counted_doc_keys [OF assms] card_image)
  also have "\<dots> = doc_freq corpus w"
    by (simp add: doc_freq_def length_filter_conv_card)
  finally show ?thesis .
qed

lemma doc_freq_le: "doc_freq corpus w \<le> length corpus"
  by (simp add: doc_freq_def)

lemma doc_freq_pos: "0 < doc_freq corpus w \<longleftrightarrow> w \<in> \<Union> (set ` set corpus)"
  by (auto simp: doc_freq_def filter_empty_conv)

lemma filter_not_deleted:
  assumes "distinct (map fst t)"
  shows "filter (\<lambda>e. fst e \<notin> set (map fst (filter (\<lambda>e. \<not> P e) t))) t = filter P t"
proof (rule filter_cong [OF refl])
  fix e assume e: "e \<in> set t"
  have "fst e \<in> fst ` {x \<in> set t. \<not> P x} \<longleftrightarrow> \<not> P e"
  proof
    assume "fst e \<in> fst ` {x \<in> set t. \<not> P x}"
    then obtain x where x: "x \<in> set t" "\<not> P x" "fst x = fst e" by auto
    then have "x = e" using assms e by (metis eq_key_imp_eq_value prod.collapse)
    with x show "\<not> P e" by simp
  next
    assume "\<not> P e" with e show "fst e \<in> fst ` {x \<in> set t. \<not> P x}" by auto
  qed
  then show "(fst e \<notin> set (map fst (filter (\<lambda>e. \<not> P e) t))) = P e" by simp
qed

subsection \<open>What the constructor returns\<close>

lemma counted_length_le:
  "\<forall>e\<in>set (counted corpus). int (length (snd e)) \<le> int (length corpus)"
proof
  fix e assume "e \<in> set (counted corpus)"
  then have "(fst e, snd e) \<in> set (counted corpus)" by simp
  from counted_length [OF this] show "int (length (snd e)) \<le> int (length corpus)"
    using doc_freq_le [of corpus "fst e"] by simp
qed

lemma BM25_eq:
  assumes "corpus \<noteq> []"
  shows "BM25 corpus pk1 pb palpha =
     (if filter (kept palpha (int (length corpus))) (counted corpus) = []
      then Inl ZeroDivisionError else Inr (built corpus pk1 pb palpha))"
proof -
  let ?n = "int (length corpus)"
  let ?t = "counted corpus"
  let ?del = "map fst (filter (\<lambda>e. \<not> kept palpha ?n e) ?t)"
  have idf: "compute_idf palpha ?n ?t ([], []) =
     Inr (map (\<lambda>e. (fst e, idf_value ?n (length (snd e)))) (filter (kept palpha ?n) ?t), ?del)"
    using compute_idf_eq [OF counted_distinct counted_length_le, where tab = "[]" and del = "[]"
        and a = palpha and corpus2 = corpus]
    by simp
  have "distinct ?del" using counted_distinct [of corpus] by (simp add: distinct_map_filter)
  moreover have "set ?del \<subseteq> fst ` set ?t" by auto
  ultimately have del: "delete_words ?del ?t = Inr (filter (kept palpha ?n) ?t)"
    using delete_words_eq [of ?del ?t] counted_distinct [of corpus]
      filter_not_deleted [OF counted_distinct, where P = "kept palpha ?n" and corpus1 = corpus]
    by simp
  have div: "py_div (of_int (sum_list (map (\<lambda>d. int (length d)) corpus))) (of_int ?n) =
     Inr (of_int (sum_list (map (\<lambda>d. int (length d)) corpus)) / of_int ?n)"
    using assms by (simp add: py_div_def)
  show ?thesis
    using assms
    by (simp add: BM25_def initialize_def index_corpus_counted div idf del py_div_def built_def
        Let_def)
qed

subsection \<open>Scoring\<close>

lemma score_loop_eq:
  assumes "keys_agree self"
    and "\<forall>tok\<in>set q. \<forall>tf. posting (t2d self) tok i = Some tf \<longrightarrow> of_int tf + length_norm self i \<noteq> 0"
  shows "score_loop self i (k1 self + 1) (length_norm self i) q s = Inr (s + bm25_sum self q i)"
  using assms(2)
proof (induction q arbitrary: s)
  case Nil
  then show ?case by (simp add: bm25_sum_def)
next
  case (Cons tok q)
  have rest: "\<forall>tok\<in>set q. \<forall>tf. posting (t2d self) tok i = Some tf \<longrightarrow> of_int tf + length_norm self i \<noteq> 0"
    using Cons.prems by simp
  note IH = Cons.IH [OF rest]
  show ?case
  proof (cases "map_of (t2d self) tok")
    case None
    then have "\<not> retained self i tok" by (simp add: retained_def posting_def)
    then show ?thesis using None IH by (simp add: bm25_sum_def)
  next
    case (Some docs)
    show ?thesis
    proof (cases "map_of docs i")
      case None
      then have "\<not> retained self i tok" using Some by (simp add: retained_def posting_def)
      then show ?thesis using None Some IH by (simp add: bm25_sum_def)
    next
      case tf: (Some tf)
      have p: "posting (t2d self) tok i = Some tf" using Some tf by (simp add: posting_def)
      have "map_of (idf self) tok \<noteq> None"
        using assms(1) Some by (simp add: keys_agree_def)
      then obtain w where w: "map_of (idf self) tok = Some w" by blast
      have nz: "of_int tf + length_norm self i \<noteq> 0" using Cons.prems p by simp
      have r: "retained self i tok" using w p by (simp add: retained_def)
      have ts: "term_score self i tok = w * of_int tf * (k1 self + 1) / (of_int tf + length_norm self i)"
        by (simp add: term_score_def w p)
      show ?thesis
        using IH [of "s + term_score self i tok"] r
        by (simp add: Some tf w py_div_def nz bm25_sum_def ts add.assoc)
    qed
  qed
qed

lemma get_score_eq:
  assumes "keys_agree self" "avgdl self \<noteq> 0" "0 \<le> i" "i < corpus_size self"
    and "\<forall>tok\<in>set q. \<forall>tf. posting (t2d self) tok i = Some tf \<longrightarrow> of_int tf + length_norm self i \<noteq> 0"
  shows "get_score self q i = Inr (bm25_sum self q i)"
proof -
  have idx: "py_index (doc_len self) i = Inr (doc_len self ! nat i)"
    using assms(3,4) by (simp add: py_index_def corpus_size_def)
  have dv: "py_div (b self * of_int (doc_len self ! nat i)) (avgdl self) =
      Inr (b self * of_int (doc_len self ! nat i) / avgdl self)"
    using assms(2) by (simp add: py_div_def)
  have "get_score self q i = score_loop self i (k1 self + 1) (length_norm self i) q 0"
    unfolding get_score_def idx dv length_norm_def Let_def sum.case ..
  then show ?thesis using score_loop_eq [OF assms(1,5), of 0] by simp
qed

lemma score_loop_char:
  assumes "keys_agree self"
  shows "score_loop self i (k1 self + 1) (length_norm self i) q s =
     (if \<exists>tok\<in>set q. \<exists>tf. posting (t2d self) tok i = Some tf \<and> of_int tf + length_norm self i = 0
      then Inl ZeroDivisionError else Inr (s + bm25_sum self q i))"
proof (induction q arbitrary: s)
  case Nil
  then show ?case by (simp add: bm25_sum_def)
next
  case (Cons tok q)
  show ?case
  proof (cases "posting (t2d self) tok i")
    case None
    then have nr: "\<not> retained self i tok" by (simp add: retained_def)
    have "score_loop self i (k1 self + 1) (length_norm self i) (tok # q) s =
        score_loop self i (k1 self + 1) (length_norm self i) q s"
    proof (cases "map_of (t2d self) tok")
      case None
      then show ?thesis by simp
    next
      case (Some docs)
      then have "map_of docs i = None" using \<open>posting (t2d self) tok i = None\<close>
        by (simp add: posting_def)
      then show ?thesis using Some by simp
    qed
    then show ?thesis using None nr by (simp add: Cons.IH bm25_sum_def)
  next
    case (Some tf)
    then obtain docs where docs: "map_of (t2d self) tok = Some docs" "map_of docs i = Some tf"
      by (auto simp: posting_def split: option.splits)
    have "map_of (idf self) tok \<noteq> None"
      using assms docs(1) by (simp add: keys_agree_def)
    then obtain w where w: "map_of (idf self) tok = Some w" by blast
    have r: "retained self i tok" using w Some by (simp add: retained_def)
    have ts: "term_score self i tok = w * of_int tf * (k1 self + 1) / (of_int tf + length_norm self i)"
      by (simp add: term_score_def w Some)
    show ?thesis
    proof (cases "of_int tf + length_norm self i = 0")
      case True
      then show ?thesis using Some by (auto simp: docs w py_div_def)
    next
      case False
      have "score_loop self i (k1 self + 1) (length_norm self i) (tok # q) s =
          score_loop self i (k1 self + 1) (length_norm self i) q (s + term_score self i tok)"
        using False by (simp add: docs w py_div_def ts)
      then show ?thesis using False Some r
        by (simp add: Cons.IH bm25_sum_def add.assoc)
    qed
  qed
qed

lemma get_score_char:
  assumes "keys_agree self" "avgdl self \<noteq> 0" "0 \<le> i" "i < corpus_size self"
  shows "get_score self q i =
     (if \<exists>tok\<in>set q. \<exists>tf. posting (t2d self) tok i = Some tf \<and> of_int tf + length_norm self i = 0
      then Inl ZeroDivisionError else Inr (bm25_sum self q i))"
proof -
  have idx: "py_index (doc_len self) i = Inr (doc_len self ! nat i)"
    using assms(3,4) by (simp add: py_index_def corpus_size_def)
  have dv: "py_div (b self * of_int (doc_len self ! nat i)) (avgdl self) =
      Inr (b self * of_int (doc_len self ! nat i) / avgdl self)"
    using assms(2) by (simp add: py_div_def)
  have "get_score self q i = score_loop self i (k1 self + 1) (length_norm self i) q 0"
    unfolding get_score_def idx dv length_norm_def Let_def sum.case ..
  then show ?thesis using score_loop_char [OF assms(1), of i q 0] by simp
qed

subsection \<open>The tables of a constructed index\<close>

lemma map_of_filter_distinct:
  "distinct (map fst t) \<Longrightarrow>
   map_of (filter P t) w =
     (case map_of t w of None \<Rightarrow> None | Some d \<Rightarrow> if P (w, d) then Some d else None)"
proof (induction t)
  case Nil
  then show ?case by simp
next
  case (Cons e t)
  obtain k v where e: "e = (k, v)" by (cases e)
  have notin: "k \<notin> fst ` set t" using Cons.prems e by simp
  then have "map_of (filter P t) k = None"
    by (auto simp: map_of_eq_None_iff)
  then show ?case using Cons e by (auto split: option.splits)
qed

lemma map_of_map_entry:
  "map_of (map (\<lambda>e. (fst e, f e)) t) w =
     (case map_of t w of None \<Rightarrow> None | Some d \<Rightarrow> Some (f (w, d)))"
  by (induction t) auto

lemma map_of_counted_None: "map_of (counted corpus) w = None \<longleftrightarrow> doc_freq corpus w = 0"
proof -
  have "map_of (counted corpus) w = None \<longleftrightarrow> w \<notin> \<Union> (set ` set corpus)"
    by (simp add: map_of_eq_None_iff counted_keys)
  then show ?thesis using doc_freq_pos [of corpus w] by auto
qed

lemma map_of_counted_Some:
  assumes "map_of (counted corpus) w = Some docs"
  shows "length docs = doc_freq corpus w" and "0 < doc_freq corpus w"
proof -
  have "(w, docs) \<in> set (counted corpus)" using assms by (rule map_of_SomeD)
  then show "length docs = doc_freq corpus w" by (rule counted_length)
  show "0 < doc_freq corpus w" using assms map_of_counted_None [of corpus w] by simp
qed

lemma built_simps [simp]:
  "k1 (built corpus pk1 pb pa) = pk1"
  "b (built corpus pk1 pb pa) = pb"
  "alpha (built corpus pk1 pb pa) = pa"
  "doc_len (built corpus pk1 pb pa) = map (\<lambda>d. int (length d)) corpus"
  "avgdl (built corpus pk1 pb pa) =
     of_int (sum_list (map (\<lambda>d. int (length d)) corpus)) / of_int (int (length corpus))"
  by (simp_all add: built_def Let_def)

lemma built_tables:
  "t2d (built corpus pk1 pb pa) = filter (kept pa (int (length corpus))) (counted corpus)"
  "idf (built corpus pk1 pb pa) =
     map (\<lambda>e. (fst e, idf_value (int (length corpus)) (length (snd e))))
       (filter (kept pa (int (length corpus))) (counted corpus))"
  by (simp_all add: built_def Let_def)

lemma built_t2d_lookup:
  "map_of (t2d (built corpus pk1 pb pa)) w =
     (if keeps corpus pa w then map_of (counted corpus) w else None)"
proof (cases "map_of (counted corpus) w")
  case None
  then show ?thesis by (simp add: built_tables map_of_filter_distinct [OF counted_distinct])
next
  case (Some docs)
  then show ?thesis
    using map_of_counted_Some [OF Some]
    by (simp add: built_tables map_of_filter_distinct [OF counted_distinct] kept_def keeps_def)
qed

lemma built_idf_lookup:
  "map_of (idf (built corpus pk1 pb pa)) w =
     (if keeps corpus pa w
      then Some (idf_value (int (length corpus)) (doc_freq corpus w)) else None)"
proof (cases "map_of (counted corpus) w")
  case None
  then show ?thesis
    using map_of_counted_None [of corpus w]
    by (simp add: built_tables map_of_map_entry map_of_filter_distinct [OF counted_distinct] keeps_def)
next
  case (Some docs)
  then show ?thesis
    using map_of_counted_Some [OF Some]
    by (simp add: built_tables map_of_map_entry map_of_filter_distinct [OF counted_distinct] kept_def
        keeps_def)
qed

lemma built_posting:
  "posting (t2d (built corpus pk1 pb pa)) w j =
     (if keeps corpus pa w \<and> 0 \<le> j \<and> j < int (length corpus) \<and> w \<in> set (corpus ! nat j)
      then Some (int (count_list (corpus ! nat j) w)) else None)"
proof -
  have "posting (t2d (built corpus pk1 pb pa)) w j =
      (if keeps corpus pa w then posting (counted corpus) w j else None)"
    unfolding posting_def built_t2d_lookup by simp
  then show ?thesis by (simp add: counted_posting)
qed

lemma built_keys_agree: "keys_agree (built corpus pk1 pb pa)"
  unfolding keys_agree_def built_t2d_lookup built_idf_lookup
  using map_of_counted_None by (auto simp: keeps_def)

lemma built_keys_eq:
  "map fst (idf (built corpus pk1 pb pa)) = map fst (t2d (built corpus pk1 pb pa))"
  by (simp add: built_tables comp_def)

lemma kept_nonempty_avgdl:
  assumes "filter (kept pa (int (length corpus))) (counted corpus) \<noteq> []"
  shows "0 < avgdl (built corpus pk1 pb pa)"
proof -
  from assms obtain e where "e \<in> set (counted corpus)"
    by (auto simp: filter_empty_conv)
  then have "fst e \<in> \<Union> (set ` set corpus)" using counted_keys [of corpus] by blast
  then obtain d where d: "d \<in> set corpus" "fst e \<in> set d" by auto
  then have "0 < length d" by (cases d) auto
  then have "0 < int (length d)" by simp
  moreover have "int (length d) \<le> sum_list (map (\<lambda>d. int (length d)) corpus)"
    using d(1) by (intro member_le_sum_list) auto
  ultimately have s: "0 < sum_list (map (\<lambda>d. int (length d)) corpus)" by linarith
  have "corpus \<noteq> []" using d(1) by auto
  then show ?thesis using s by simp
qed

lemma BM25_Inr:
  assumes "BM25 corpus pk1 pb pa = Inr ix" "corpus \<noteq> []"
  shows "ix = built corpus pk1 pb pa"
    and "filter (kept pa (int (length corpus))) (counted corpus) \<noteq> []"
  using assms by (auto simp: BM25_eq split: if_splits)

lemma BM25_Nil:
  "BM25 [] pk1 pb pa =
     Inr \<lparr>k1 = pk1, b = pb, alpha = pa, avgdl = 0, t2d = [], idf = [], doc_len = [],
          average_idf = None\<rparr>"
  by (simp add: BM25_def)

subsection \<open>Persistence\<close>

lemma digit_val_digit_char: "d < 10 \<Longrightarrow> digit_val (digit_char d) = Some d"
proof -
  assume "d < 10"
  then have "d \<in> {0, 1, 2, 3, 4, 5, 6, 7, 8, 9}" by auto
  then show ?thesis
    by (auto simp: digit_val_def digit_char_def Let_def)
qed

lemma digit_val_minus: "digit_val CHR ''-'' = None"
  by (simp add: digit_val_def Let_def)

lemma parse_digits_snoc:
  "parse_digits acc (s @ [c]) =
     (case parse_digits acc s of
        None \<Rightarrow> None
      | Some m \<Rightarrow> (case digit_val c of None \<Rightarrow> None | Some d \<Rightarrow> Some (10 * m + d)))"
  by (induction s arbitrary: acc) (auto split: option.splits)

lemma parse_digits_str_nat: "parse_digits 0 (str_nat n) = Some n"
proof (induction n rule: str_nat.induct)
  case (1 n)
  show ?case
  proof (cases "n < 10")
    case True
    then show ?thesis by (subst str_nat.simps) (simp add: digit_val_digit_char)
  next
    case False
    then have "parse_digits 0 (str_nat (n div 10)) = Some (n div 10)" using 1 by simp
    then show ?thesis using False
      by (subst str_nat.simps) (simp add: parse_digits_snoc digit_val_digit_char)
  qed
qed

lemma str_nat_digits: "c \<in> set (str_nat n) \<Longrightarrow> digit_val c \<noteq> None"
proof (induction n rule: str_nat.induct)
  case (1 n)
  show ?case
  proof (cases "n < 10")
    case True
    then show ?thesis using "1.prems"
      by (subst (asm) str_nat.simps) (simp add: digit_val_digit_char)
  next
    case False
    then show ?thesis using 1
      by (subst (asm) (2) str_nat.simps) (auto simp: digit_val_digit_char)
  qed
qed

lemma str_nat_nonempty: "str_nat n \<noteq> []"
  by (subst str_nat.simps) simp

lemma parse_nat_str_nat: "parse_nat (str_nat n) = Some n"
  by (simp add: parse_nat_def str_nat_nonempty parse_digits_str_nat)

lemma py_int_str_int: "py_int (str_int i) = Inr i"
proof (cases "i < 0")
  case True
  then show ?thesis by (simp add: py_int_def str_int_def parse_nat_str_nat)
next
  case False
  obtain c cs where s: "str_nat (nat i) = c # cs"
    using str_nat_nonempty [of "nat i"] by (cases "str_nat (nat i)") auto
  then have "c \<in> set (str_nat (nat i))" by simp
  then have "c \<noteq> CHR ''-''" using str_nat_digits digit_val_minus by blast
  moreover have "parse_nat (c # cs) = Some (nat i)" using parse_nat_str_nat [of "nat i"] s by simp
  ultimately show ?thesis using False s by (simp add: py_int_def str_int_def)
qed

lemma int_keys_dump:
  assumes "distinct (map fst docs)" "fst ` set acc \<inter> fst ` set docs = {}"
  shows "int_keys (map (\<lambda>(i, f). (str_int i, f)) docs) acc = Inr (acc @ docs)"
  using assms
proof (induction docs arbitrary: acc)
  case Nil
  then show ?case by simp
next
  case (Cons e docs)
  obtain i f where e: "e = (i, f)" by (cases e)
  have fresh: "i \<notin> fst ` set acc" using Cons.prems(2) e by auto
  have 1: "distinct (map fst docs)" using Cons.prems(1) by simp
  have 2: "fst ` set (acc @ [(i, f)]) \<inter> fst ` set docs = {}"
    using Cons.prems e by auto
  show ?case using Cons.IH [OF 1 2]
    by (simp add: e py_int_str_int update_fresh [OF fresh])
qed

lemma restore_t2d_dump:
  assumes "\<forall>e\<in>set t. distinct (map fst (snd e))"
  shows "restore_t2d (map (\<lambda>(tok, docs). (tok, map (\<lambda>(i, f). (str_int i, f)) docs)) t) = Inr t"
  using assms
proof (induction t)
  case Nil
  then show ?case by simp
next
  case (Cons e t)
  obtain tok docs where e: "e = (tok, docs)" by (cases e)
  have "int_keys (map (\<lambda>(i, f). (str_int i, f)) docs) [] = Inr docs"
    using int_keys_dump [of docs "[]"] Cons.prems e by simp
  then show ?case using Cons by (simp add: e)
qed

lemma load_save:
  assumes "\<forall>e\<in>set (t2d x). distinct (map fst (snd e))"
  shows "load name (save x name fs) = Inr (x\<lparr>average_idf := None\<rparr>)"
  by (simp add: load_def save_def json_dump_def restore_t2d_dump [OF assms] BM25_Nil)

lemma score_loop_average_idf:
  "score_loop (self\<lparr>average_idf := v\<rparr>) i nc dc q s = score_loop self i nc dc q s"
  by (induction q arbitrary: s) (auto split: option.splits sum.splits)

lemma get_score_average_idf:
  "get_score (self\<lparr>average_idf := v\<rparr>) q i = get_score self q i"
  by (simp add: get_score_def score_loop_average_idf split: sum.splits)

subsection \<open>Selection of the largest keys\<close>

lemma with_keys_Inr:
  "with_keys key xs = Inr kxs \<Longrightarrow>
     kxs = map (\<lambda>x. (key_value key x, x)) xs \<and> (\<forall>x\<in>set xs. key x = Inr (key_value key x))"
  by (induction xs arbitrary: kxs) (auto simp: key_value_def split: sum.splits)

lemma with_keys_Inl: "with_keys key xs = Inl e \<Longrightarrow> \<exists>x\<in>set xs. key x = Inl e"
  by (induction xs) (auto split: sum.splits)

lemma with_keys_total:
  "\<forall>x\<in>set xs. \<exists>v. key x = Inr v \<Longrightarrow> \<exists>kxs. with_keys key xs = Inr kxs"
  by (induction xs) (auto split: sum.splits)

lemma sorted_take_drop:
  assumes "sorted_wrt P ys" "x \<in> set (take n ys)" "y \<in> set (drop n ys)"
  shows "P x y"
proof -
  have "sorted_wrt P (take n ys @ drop n ys)" using assms(1) by simp
  then show ?thesis using assms(2,3) unfolding sorted_wrt_append by blast
qed

lemma nlargest_Inr:
  assumes "nlargest n xs key = Inr r" "distinct xs"
  shows "length r \<le> nat n" and "set r \<subseteq> set xs" and "distinct r"
    and "sorted_wrt (\<lambda>x y. key_value key y \<le> key_value key x) r"
    and "\<forall>x\<in>set r. \<forall>y\<in>set xs - set r. key_value key y \<le> key_value key x"
    and "0 < n \<Longrightarrow> \<forall>x\<in>set xs. key x = Inr (key_value key x)"
proof -
  show "length r \<le> nat n"
    using assms(1) by (auto simp: nlargest_def split: if_splits sum.splits)
  show k: "0 < n \<Longrightarrow> \<forall>x\<in>set xs. key x = Inr (key_value key x)"
    using assms(1) with_keys_Inr [of key xs]
    by (auto simp: nlargest_def split: if_splits sum.splits)
  have "set r \<subseteq> set xs \<and> distinct r
    \<and> sorted_wrt (\<lambda>x y. key_value key y \<le> key_value key x) r
    \<and> (\<forall>x\<in>set r. \<forall>y\<in>set xs - set r. key_value key y \<le> key_value key x)"
  proof (cases "n \<le> 0")
    case True
    then have "r = []" using assms(1) by (simp add: nlargest_def)
    then show ?thesis by simp
  next
    case False
    then obtain kxs where kxs: "with_keys key xs = Inr kxs"
      and r: "r = take (nat n) (map snd (sort_key (\<lambda>p. - fst p) kxs))"
      using assms(1) by (auto simp: nlargest_def split: sum.splits)
    let ?S = "sort_key (\<lambda>p. - fst p) kxs"
    let ?ys = "map snd ?S"
    have kx: "kxs = map (\<lambda>x. (key_value key x, x)) xs" using with_keys_Inr [OF kxs] by simp
    have ms: "mset ?ys = mset xs"
      by (simp add: kx image_mset.compositionality comp_def)
    then have set_ys: "set ?ys = set xs" by (metis set_mset_mset)
    have dist_ys: "distinct ?ys" using ms assms(2) by (metis distinct_count_atmost_1 set_mset_mset)
    have fs: "\<forall>p\<in>set ?S. fst p = key_value key (snd p)"
      by (auto simp: kx)
    have "sorted (map (\<lambda>p. - fst p) ?S)" by (rule sorted_sort_key)
    then have "sorted_wrt (\<lambda>p q. fst q \<le> fst p) ?S"
      by (simp add: sorted_map sorted_wrt_iff_nth_less)
    then have "sorted_wrt (\<lambda>p q. key_value key (snd q) \<le> key_value key (snd p)) ?S"
      by (rule sorted_wrt_mono_rel [rotated]) (use fs in auto)
    then have st: "sorted_wrt (\<lambda>x y. key_value key y \<le> key_value key x) ?ys"
      by (simp add: sorted_wrt_map)
    have 1: "set r \<subseteq> set xs" using set_ys r by (auto dest: in_set_takeD)
    have 2: "distinct r" using dist_ys r by simp
    have 3: "sorted_wrt (\<lambda>x y. key_value key y \<le> key_value key x) r"
      unfolding r using st by (rule sorted_wrt_take)
    have 4: "\<forall>x\<in>set r. \<forall>y\<in>set xs - set r. key_value key y \<le> key_value key x"
    proof (intro ballI)
      fix x y assume x: "x \<in> set r" and y: "y \<in> set xs - set r"
      have "set ?ys = set (take (nat n) ?ys) \<union> set (drop (nat n) ?ys)"
        by (metis append_take_drop_id set_append)
      then have "y \<in> set (drop (nat n) ?ys)" using y set_ys r by auto
      then show "key_value key y \<le> key_value key x"
        using sorted_take_drop [OF st, of x "nat n" y] x r by simp
    qed
    from 1 2 3 4 show ?thesis by simp
  qed
  then show "set r \<subseteq> set xs" and "distinct r"
    and "sorted_wrt (\<lambda>x y. key_value key y \<le> key_value key x) r"
    and "\<forall>x\<in>set r. \<forall>y\<in>set xs - set r. key_value key y \<le> key_value key x"
    by simp_all
qed

lemma nlargest_length:
  assumes "nlargest n xs key = Inr r"
  shows "length r = min (nat n) (length xs)"
proof (cases "n \<le> 0")
  case True
  then show ?thesis using assms by (simp add: nlargest_def)
next
  case False
  then obtain kxs where kxs: "with_keys key xs = Inr kxs"
    and r: "r = take (nat n) (map snd (sort_key (\<lambda>p. - fst p) kxs))"
    using assms by (auto simp: nlargest_def split: sum.splits)
  have "length kxs = length xs" using with_keys_Inr [OF kxs] by simp
  then show ?thesis by (simp add: r)
qed

lemma nlargest_Inl: "nlargest n xs key = Inl e \<Longrightarrow> \<exists>x\<in>set xs. key x = Inl e"
  by (auto simp: nlargest_def dest: with_keys_Inl split: if_splits sum.splits)

lemma nlargest_total:
  "\<forall>x\<in>set xs. \<exists>v. key x = Inr v \<Longrightarrow> \<exists>r. nlargest n xs key = Inr r"
  using with_keys_total [of xs key] by (auto simp: nlargest_def)

lemma lookup_all_Inr:
  "lookup_all documents is = Inr r \<Longrightarrow>
     length r = length is \<and> (\<forall>k<length is. py_index documents (is ! k) = Inr (r ! k))"
proof (induction "is" arbitrary: r)
  case Nil
  then show ?case by simp
next
  case (Cons i "is")
  then show ?case
    by (auto split: sum.splits simp: nth_Cons split: nat.splits)
qed

lemma lookup_all_Inl: "lookup_all documents is = Inl e \<Longrightarrow> e = IndexError"
  by (induction "is") (auto simp: py_index_def Let_def split: sum.splits if_splits)

lemma lookup_all_in_range:
  "\<forall>i\<in>set is. 0 \<le> i \<and> i < int (length documents) \<Longrightarrow>
     lookup_all documents is = Inr (map (\<lambda>i. documents ! nat i) is)"
  by (induction "is") (auto simp: py_index_def)

lemma score_loop_no_assert: "score_loop self i nc dc q s \<noteq> Inl AssertionError"
  by (induction q arbitrary: s) (auto simp: py_div_def split: option.splits sum.splits if_splits)

lemma get_score_no_assert: "get_score self q i \<noteq> Inl AssertionError"
  by (auto simp: get_score_def py_index_def py_div_def Let_def score_loop_no_assert
      split: sum.splits if_splits)

subsection \<open>Constructed indexes\<close>

lemma BM25_cases:
  assumes "BM25 corpus pk1 pb pa = Inr ix"
  shows "(corpus = [] \<and> ix = empty_index pk1 pb pa) \<or>
         (corpus \<noteq> [] \<and> ix = built corpus pk1 pb pa \<and>
          filter (kept pa (int (length corpus))) (counted corpus) \<noteq> [])"
proof (cases "corpus = []")
  case True
  then show ?thesis using assms by (simp add: BM25_Nil empty_index_def)
next
  case False
  then show ?thesis using BM25_Inr [OF assms False] by simp
qed

lemma built_corpus_size [simp]: "corpus_size (built corpus pk1 pb pa) = int (length corpus)"
  by (simp add: corpus_size_def)

lemma built_inner_distinct:
  "\<forall>e\<in>set (t2d (built corpus pk1 pb pa)). distinct (map fst (snd e))"
proof
  fix e assume "e \<in> set (t2d (built corpus pk1 pb pa))"
  then have "(fst e, snd e) \<in> set (counted corpus)" by (simp add: built_tables)
  then show "distinct (map fst (snd e))" by (rule counted_entry(2))
qed

lemma constructed_inner_distinct:
  assumes "BM25 corpus pk1 pb pa = Inr ix"
  shows "\<forall>e\<in>set (t2d ix). distinct (map fst (snd e))"
  using BM25_cases [OF assms] built_inner_distinct [of corpus pk1 pb pa]
  by (auto simp: empty_index_def)

lemma constructed_keys_eq:
  assumes "BM25 corpus pk1 pb pa = Inr ix"
  shows "map fst (idf ix) = map fst (t2d ix)"
  using BM25_cases [OF assms] built_keys_eq [of corpus pk1 pb pa]
  by (auto simp: empty_index_def)

lemma indexes_iff:
  "i \<in> indexes self q \<longleftrightarrow> (\<exists>tok\<in>set q. posting (t2d self) tok i \<noteq> None)"
proof -
  have "i \<in> set (case map_of (t2d self) tok of None \<Rightarrow> [] | Some docs \<Rightarrow> map fst docs)
      \<longleftrightarrow> posting (t2d self) tok i \<noteq> None" for tok
  proof (cases "map_of (t2d self) tok")
    case None
    then show ?thesis by (simp add: posting_def)
  next
    case (Some docs)
    have "i \<in> fst ` set docs \<longleftrightarrow> map_of docs i \<noteq> None"
      by (simp add: map_of_eq_None_iff)
    then show ?thesis using Some by (simp add: posting_def)
  qed
  then show ?thesis by (simp add: indexes_def)
qed

lemma finite_indexes: "finite (indexes self q)"
  unfolding indexes_def by (rule finite_set)

lemma constructed_indexes_range:
  assumes "BM25 corpus pk1 pb pa = Inr ix" "i \<in> indexes ix q"
  shows "0 \<le> i \<and> i < corpus_size ix"
proof -
  from assms(2) obtain tok where p: "posting (t2d ix) tok i \<noteq> None"
    by (auto simp: indexes_iff)
  from BM25_cases [OF assms(1)] show ?thesis
  proof
    assume "corpus = [] \<and> ix = empty_index pk1 pb pa"
    then show ?thesis using p by (simp add: empty_index_def posting_def)
  next
    assume "corpus \<noteq> [] \<and> ix = built corpus pk1 pb pa \<and>
          filter (kept pa (int (length corpus))) (counted corpus) \<noteq> []"
    then show ?thesis using p by (auto simp: built_posting split: if_splits)
  qed
qed

lemma length_norm_nonneg:
  assumes "0 \<le> k1 self" "0 \<le> b self" "b self \<le> 1" "0 \<le> doc_len self ! nat i" "0 < avgdl self"
  shows "0 \<le> length_norm self i"
proof -
  have "0 \<le> b self * of_int (doc_len self ! nat i) / avgdl self"
    using assms by simp
  then have "0 \<le> 1 - b self + b self * of_int (doc_len self ! nat i) / avgdl self"
    using assms(3) by linarith
  then show ?thesis unfolding length_norm_def using assms(1) by simp
qed

lemma built_denominator_pos:
  assumes "0 \<le> pk1" "0 \<le> pb" "pb \<le> 1"
    and "filter (kept pa (int (length corpus))) (counted corpus) \<noteq> []"
    and "posting (t2d (built corpus pk1 pb pa)) tok i = Some tf"
  shows "0 < of_int tf + length_norm (built corpus pk1 pb pa) i"
proof -
  let ?ix = "built corpus pk1 pb pa"
  from assms(5) have r: "0 \<le> i" "i < int (length corpus)" "tok \<in> set (corpus ! nat i)"
    and tf: "tf = int (count_list (corpus ! nat i) tok)"
    by (auto simp: built_posting split: if_splits)
  have "0 < count_list (corpus ! nat i) tok" using r(3) by (metis count_list_0_iff not_gr_zero)
  then have tf1: "1 \<le> tf" using tf by simp
  have "0 \<le> doc_len ?ix ! nat i" using r by simp
  then have "0 \<le> length_norm ?ix i"
    using length_norm_nonneg [of ?ix i] assms(1-3) kept_nonempty_avgdl [OF assms(4), of pk1 pb]
    by simp
  then show ?thesis using tf1 by linarith
qed

lemma constructed_get_score:
  assumes "BM25 corpus pk1 pb pa = Inr ix" "0 \<le> i" "i < corpus_size ix"
    and "\<forall>tok\<in>set q. \<forall>tf. posting (t2d ix) tok i = Some tf \<longrightarrow> of_int tf + length_norm ix i \<noteq> 0"
  shows "get_score ix q i = Inr (bm25_sum ix q i)"
proof -
  from BM25_cases [OF assms(1)] assms(2,3)
  have ix: "ix = built corpus pk1 pb pa"
    and ne: "filter (kept pa (int (length corpus))) (counted corpus) \<noteq> []"
    by (auto simp: empty_index_def corpus_size_def)
  have "0 < avgdl ix" unfolding ix by (rule kept_nonempty_avgdl [OF ne])
  then have "avgdl ix \<noteq> 0" by linarith
  moreover have "keys_agree ix" unfolding ix by (rule built_keys_agree)
  ultimately show ?thesis using assms(2-4) by (intro get_score_eq)
qed

lemma all_pruned_fails:
  assumes "corpus \<noteq> []"
    and "\<forall>w. 0 < doc_freq corpus w \<longrightarrow> idf_value (int (length corpus)) (doc_freq corpus w) \<le> pa"
  shows "BM25 corpus pk1 pb pa = Inl ZeroDivisionError"
proof -
  have "\<not> kept pa (int (length corpus)) e" if "e \<in> set (counted corpus)" for e
  proof -
    from that have m: "map_of (counted corpus) (fst e) = Some (snd e)"
      using counted_entry(1) [of "fst e" "snd e" corpus] by simp
    from map_of_counted_Some [OF m]
    have "length (snd e) = doc_freq corpus (fst e)" "0 < doc_freq corpus (fst e)" by simp_all
    moreover from this assms(2)
    have "idf_value (int (length corpus)) (doc_freq corpus (fst e)) \<le> pa" by blast
    ultimately show ?thesis by (simp add: kept_def)
  qed
  then have "filter (kept pa (int (length corpus))) (counted corpus) = []"
    by (simp add: filter_empty_conv)
  then show ?thesis by (simp add: BM25_eq [OF assms(1)])
qed

lemma built_get_score:
  assumes "0 \<le> pk1" "0 \<le> pb" "pb \<le> 1"
    and "filter (kept pa (int (length corpus))) (counted corpus) \<noteq> []"
    and "0 \<le> i" "i < int (length corpus)"
  shows "get_score (built corpus pk1 pb pa) q i = Inr (bm25_sum (built corpus pk1 pb pa) q i)"
proof (rule get_score_eq)
  show "keys_agree (built corpus pk1 pb pa)" by (rule built_keys_agree)
  show "avgdl (built corpus pk1 pb pa) \<noteq> 0"
    using kept_nonempty_avgdl [OF assms(4), of pk1 pb] by linarith
  show "0 \<le> i" by fact
  show "i < corpus_size (built corpus pk1 pb pa)" using assms(6) by simp
  show "\<forall>tok\<in>set q. \<forall>tf. posting (t2d (built corpus pk1 pb pa)) tok i = Some tf \<longrightarrow>
          of_int tf + length_norm (built corpus pk1 pb pa) i \<noteq> 0"
    using built_denominator_pos [OF assms(1-4)] by fastforce
qed

lemma constructed_get_score_char:
  assumes "BM25 corpus pk1 pb pa = Inr ix" "0 \<le> i" "i < corpus_size ix"
  shows "get_score ix q i =
     (if \<exists>tok\<in>set q. \<exists>tf. posting (t2d ix) tok i = Some tf \<and> of_int tf + length_norm ix i = 0
      then Inl ZeroDivisionError else Inr (bm25_sum ix q i))"
proof -
  from BM25_cases [OF assms(1)] assms(2,3)
  have ix: "ix = built corpus pk1 pb pa"
    and ne: "filter (kept pa (int (length corpus))) (counted corpus) \<noteq> []"
    by (auto simp: empty_index_def corpus_size_def)
  have "0 < avgdl ix" unfolding ix by (rule kept_nonempty_avgdl [OF ne])
  then have "avgdl ix \<noteq> 0" by linarith
  moreover have "keys_agree ix" unfolding ix by (rule built_keys_agree)
  ultimately show ?thesis using assms(2,3) by (intro get_score_char)
qed

lemma constructed_score_sum:
  assumes "BM25 corpus pk1 pb pa = Inr ix" "0 \<le> pk1" "0 \<le> pb" "pb \<le> 1"
    and "0 \<le> i" "i < corpus_size ix"
  shows "get_score ix q i = Inr (bm25_sum ix q i)"
proof -
  from BM25_cases [OF assms(1)] assms(5,6)
  have ix: "ix = built corpus pk1 pb pa"
    and ne: "filter (kept pa (int (length corpus))) (counted corpus) \<noteq> []"
    by (auto simp: empty_index_def corpus_size_def)
  have "i < int (length corpus)" using assms(6) by (simp add: ix)
  from built_get_score [OF assms(2-4) ne assms(5) this] show ?thesis by (simp add: ix)
qed

lemma constructed_keys_agree:
  assumes "BM25 corpus pk1 pb pa = Inr ix"
  shows "keys_agree ix"
  using BM25_cases [OF assms] built_keys_agree [of corpus pk1 pb pa]
  by (auto simp: empty_index_def keys_agree_def)

lemma not_retained_no_posting:
  assumes "keys_agree self" "\<not> retained self i tok"
  shows "posting (t2d self) tok i = None"
proof (rule ccontr)
  assume "posting (t2d self) tok i \<noteq> None"
  moreover from this have "map_of (t2d self) tok \<noteq> None"
    by (auto simp: posting_def split: option.splits)
  then have "map_of (idf self) tok \<noteq> None" using assms(1) by (simp add: keys_agree_def)
  ultimately show False using assms(2) by (simp add: retained_def)
qed

subsection \<open>Raising a term frequency\<close>











subsection \<open>The example index\<close>

lemma example_counted:
  "counted example_corpus = [(''a'', [(0, 1), (2, 1)]), (''b'', [(1, 1)]), (''c'', [(2, 1)])]"
  by (simp add: example_corpus_def counted_def add_word_def)

lemma example_lengths:
  "example_corpus \<noteq> []" "length example_corpus = 3"
  "map (\<lambda>d. int (length d)) example_corpus = [1, 1, 2]"
  by (simp_all add: example_corpus_def)

lemma example_built: "BM25 example_corpus 1.5 0.75 0 = Inr example_index"
  by (simp add: BM25_eq [OF example_lengths(1)] built_def example_counted example_lengths
      kept_def idf_value_def example_index_def)

lemma example_corpus_size: "corpus_size example_index = 3"
  by (simp add: corpus_size_def example_index_def)

lemma example_score_1:
  "get_score example_index [''c'', ''b'', ''c''] 1 = Inr ((ln (5 / 2) - ln (3 / 2)) * (80 / 71))"
  by (simp add: get_score_def py_index_def py_div_def example_index_def)

lemma example_score_2:
  "get_score example_index [''c'', ''b'', ''c''] 2 = Inr ((ln (5 / 2) - ln (3 / 2)) * (80 / 49))"
  by (simp add: get_score_def py_index_def py_div_def example_index_def)

lemma example_indexes: "indexes example_index [''c'', ''b'', ''c''] = {1, 2}"
  by (auto simp: indexes_def example_index_def)

lemma example_top_indexes:
  "top_indexes example_index sorted_list_of_set [''c'', ''b'', ''c''] 5 = Inr [2, 1]"
proof -
  have "0 < ln (5 / 2) - ln (3 / 2 :: real)" by simp
  then have "(ln (5 / 2) - ln (3 / 2 :: real)) * (80 / 71) \<le> (ln (5 / 2) - ln (3 / 2)) * (80 / 49)"
    by (intro mult_left_mono) simp_all
  moreover have "sorted_list_of_set (indexes example_index [''c'', ''b'', ''c'']) = [1, 2]"
    by (simp add: example_indexes)
  ultimately show ?thesis
    unfolding top_indexes_def nlargest_def
    by (simp add: example_score_1 example_score_2)
qed

lemma example_get_top_n:
  "get_top_n example_index sorted_list_of_set [''c'', ''b'', ''c''] [''d0'', ''d1'', ''d2''] 5 =
     Inr [''d2'', ''d1'']"
  by (simp add: get_top_n_def example_top_indexes py_index_def example_corpus_size)

lemma set_order_sorted_list: "set_order sorted_list_of_set"
  by (simp add: set_order_def)

section \<open>The properties\<close>

subsection \<open>Scoring\<close>

text \<open>
  C1, as amended. On an index constructed with \<open>k1 \<ge> 0\<close> and \<open>0 \<le> b \<le> 1\<close>, for every
  query and every document position in range, \<open>get_score\<close> returns the sum, over the
  occurrences of query terms that have an IDF entry and a posting for the document, of
  \<open>idf * tf * (k1 + 1) / (tf + k1 * (1 - b + b * doc_len / avgdl))\<close>. Occurrences without
  IDF entry or without posting contribute nothing, so the score is 0 when no occurrence is
  retained.
\<close>

theorem get_score_formula:
  assumes "BM25 corpus pk1 pb pa = Inr ix" "0 \<le> pk1" "0 \<le> pb" "pb \<le> 1"
    and "0 \<le> i" "i < corpus_size ix"
  shows "get_score ix q i = Inr (bm25_sum ix q i) \<and>
         (filter (retained ix i) q = [] \<longrightarrow> get_score ix q i = Inr 0)"
proof -
  have s: "get_score ix q i = Inr (bm25_sum ix q i)"
    by (rule constructed_score_sum [OF assms])
  have "bm25_sum ix q i = 0" if "filter (retained ix i) q = []"
    using that by (simp add: bm25_sum_def)
  with s show ?thesis by simp
qed

theorem get_score_formula_witness:
  "BM25 example_corpus 1.5 0.75 0 = Inr example_index \<and>
   get_score example_index [''c'', ''b'', ''c''] 2 = Inr (bm25_sum example_index [''c'', ''b'', ''c''] 2) \<and>
   bm25_sum example_index [''c'', ''b'', ''c''] 2 = (ln (5 / 2) - ln (3 / 2)) * (80 / 49) \<and>
   get_score example_index [''a'', ''zz''] 2 = Inr 0"
proof -
  have r: "(0::real) \<le> 1.5" "(0::real) \<le> 0.75" "(0.75::real) \<le> 1"
    "(0::int) \<le> 2" "2 < corpus_size example_index"
    by (simp_all add: example_corpus_size)
  have e: "filter (retained example_index 2) [''a'', ''zz''] = []"
    by (simp add: retained_def example_index_def)
  note A = get_score_formula [OF example_built r, of "[''c'', ''b'', ''c'']"]
  note B = get_score_formula [OF example_built r, of "[''a'', ''zz'']"]
  have 1: "get_score example_index [''c'', ''b'', ''c''] 2 =
      Inr (bm25_sum example_index [''c'', ''b'', ''c''] 2)"
    using A by simp
  have 2: "bm25_sum example_index [''c'', ''b'', ''c''] 2 = (ln (5 / 2) - ln (3 / 2)) * (80 / 49)"
    using 1 example_score_2 by simp
  have 3: "get_score example_index [''a'', ''zz''] 2 = Inr 0"
    using B e by blast
  from example_built 1 2 3 show ?thesis by blast
qed

text \<open>
  C1, as stated, fails. The constructor accepts any \<open>k1\<close>: with \<open>k1 = -2\<close>, \<open>b = 0\<close> and
  \<open>alpha = -1\<close> the corpus \<open>[[a, a], [b]]\<close> gives an index in which \<open>a\<close> is retained with
  frequency 2 in document 0, and \<open>get_score\<close> for the query \<open>[a]\<close> and position 0 divides by
  \<open>2 + (-2) = 0\<close>: it raises the division error instead of returning the sum.
\<close>

theorem get_score_formula_counterexample:
  "BM25 [[''a'', ''a''], [''b'']] (- 2) 0 (- 1) = Inr twice_index \<and>
   corpus_size twice_index = 2 \<and>
   retained twice_index 0 ''a'' \<and>
   get_score twice_index [''a''] 0 = Inl ZeroDivisionError"
proof -
  have c: "counted [[''a'', ''a''], [''b'']] = [(''a'', [(0, 2)]), (''b'', [(1, 1)])]"
    by (simp add: counted_def add_word_def)
  have 1: "BM25 [[''a'', ''a''], [''b'']] (- 2) 0 (- 1) = Inr twice_index"
    by (simp add: BM25_eq built_def c kept_def idf_value_def twice_index_def)
  have 2: "corpus_size twice_index = 2"
    by (simp add: corpus_size_def twice_index_def)
  have 3: "retained twice_index 0 ''a''"
    by (simp add: retained_def posting_def twice_index_def)
  have 4: "get_score twice_index [''a''] 0 = Inl ZeroDivisionError"
    by (simp add: get_score_def py_index_def py_div_def twice_index_def)
  from 1 2 3 4 show ?thesis by (intro conjI)
qed

text \<open>
  C6, as amended. On an index constructed from a non-empty corpus with \<open>k1 \<ge> 0\<close> and
  \<open>0 \<le> b \<le> 1\<close>, \<open>get_score\<close> returns a value for every query and every document position
  in range.
\<close>

theorem get_score_returns:
  assumes "corpus \<noteq> []" "BM25 corpus pk1 pb pa = Inr ix" "0 \<le> pk1" "0 \<le> pb" "pb \<le> 1"
    and "0 \<le> i" "i < corpus_size ix"
  shows "\<exists>v. get_score ix q i = Inr v"
proof -
  have ix: "ix = built corpus pk1 pb pa"
    and ne: "filter (kept pa (int (length corpus))) (counted corpus) \<noteq> []"
    using BM25_Inr [OF assms(2,1)] by simp_all
  have "\<forall>tok\<in>set q. \<forall>tf. posting (t2d ix) tok i = Some tf \<longrightarrow> of_int tf + length_norm ix i \<noteq> 0"
    unfolding ix using built_denominator_pos [OF assms(3-5) ne] by fastforce
  from constructed_get_score [OF assms(2,6,7) this] show ?thesis by blast
qed

theorem get_score_returns_witness:
  "example_corpus \<noteq> [] \<and> BM25 example_corpus 1.5 0.75 0 = Inr example_index \<and>
   (\<exists>v. get_score example_index [''c'', ''a''] 2 = Inr v)"
proof -
  have "\<exists>v. get_score example_index [''c'', ''a''] 2 = Inr v"
    by (rule get_score_returns [OF example_lengths(1) example_built])
      (simp_all add: example_corpus_size)
  then show ?thesis using example_lengths(1) example_built by simp
qed

text \<open>
  C6, as stated, fails: with \<open>k1 = -1\<close> and \<open>b = 0\<close> the index is constructed and scoring
  a document that contains a query term once divides by \<open>1 + (-1) = 0\<close>.
\<close>

theorem get_score_raises_counterexample:
  "BM25 [[''a''], [''b'']] (- 1) 0 (- 1) =
     Inr \<lparr>k1 = - 1, b = 0, alpha = - 1, avgdl = 1,
          t2d = [(''a'', [(0, 1)]), (''b'', [(1, 1)])], idf = [(''a'', 0), (''b'', 0)],
          doc_len = [1, 1], average_idf = Some 0\<rparr> \<and>
   corpus_size \<lparr>k1 = - 1, b = 0, alpha = - 1, avgdl = 1,
          t2d = [(''a'', [(0, 1)]), (''b'', [(1, 1)])], idf = [(''a'', 0), (''b'', 0)],
          doc_len = [1, 1], average_idf = Some 0\<rparr> = 2 \<and>
   get_score \<lparr>k1 = - 1, b = 0, alpha = - 1, avgdl = 1,
          t2d = [(''a'', [(0, 1)]), (''b'', [(1, 1)])], idf = [(''a'', 0), (''b'', 0)],
          doc_len = [1, 1], average_idf = Some 0\<rparr> [''a''] 0 = Inl ZeroDivisionError"
proof -
  have "counted [[''a''], [''b'']] = [(''a'', [(0, 1)]), (''b'', [(1, 1)])]"
    by (simp add: counted_def add_word_def)
  then show ?thesis
    by (simp add: BM25_eq built_def kept_def idf_value_def corpus_size_def get_score_def
        py_index_def py_div_def)
qed

subsection \<open>Construction\<close>

text \<open>
  C4. On every constructed index a term has an entry in the IDF table exactly when it has
  one in the posting table. Scoring, top-N retrieval and \<open>save\<close> assign to no field of the
  index; the index that \<open>load\<close> returns from what \<open>save\<close> wrote has the same property.
\<close>

theorem idf_keys_eq_posting_keys:
  assumes "BM25 corpus pk1 pb pa = Inr ix"
  shows "fst ` set (idf ix) = fst ` set (t2d ix) \<and>
         (\<exists>ix'. load name (save ix name fs) = Inr ix' \<and>
                 fst ` set (idf ix') = fst ` set (t2d ix'))"
proof -
  have "set (map fst (idf ix)) = set (map fst (t2d ix))"
    using constructed_keys_eq [OF assms] by simp
  then have eq: "fst ` set (idf ix) = fst ` set (t2d ix)" by simp
  then show ?thesis
    using load_save [OF constructed_inner_distinct [OF assms], of name fs] by simp
qed

theorem idf_keys_eq_posting_keys_witness:
  "BM25 example_corpus 1.5 0.75 0 = Inr example_index \<and>
   fst ` set (idf example_index) = fst ` set (t2d example_index)"
  using idf_keys_eq_posting_keys [OF example_built, of "''index''" Map.empty] example_built
  by blast

text \<open>
  C5. For a corpus of \<open>n > 0\<close> documents and a term contained in \<open>df > 0\<close> of them, the
  counting loop stores \<open>df\<close> postings for the term; the term has the IDF weight
  \<open>ln (n - df + 0.5) - ln (df + 0.5)\<close>, and keeps its postings, exactly when that value is
  greater than \<open>alpha\<close>; otherwise it has no entry in either table.
\<close>

theorem idf_retention:
  assumes "corpus \<noteq> []" "BM25 corpus pk1 pb pa = Inr ix"
  shows "map_of (idf ix) w =
           (if 0 < doc_freq corpus w \<and> pa < idf_value (int (length corpus)) (doc_freq corpus w)
            then Some (idf_value (int (length corpus)) (doc_freq corpus w)) else None) \<and>
         map_of (t2d ix) w =
           (if 0 < doc_freq corpus w \<and> pa < idf_value (int (length corpus)) (doc_freq corpus w)
            then map_of (counted corpus) w else None) \<and>
         (\<forall>docs. map_of (counted corpus) w = Some docs \<longrightarrow> length docs = doc_freq corpus w) \<and>
         (map_of (counted corpus) w = None \<longleftrightarrow> doc_freq corpus w = 0)"
proof -
  have ix: "ix = built corpus pk1 pb pa" using BM25_Inr(1) [OF assms(2,1)] .
  show ?thesis
    unfolding ix built_idf_lookup built_t2d_lookup keeps_def
    using map_of_counted_Some(1) [of corpus w] map_of_counted_None [of corpus w]
    by simp
qed

theorem idf_retention_witness:
  "example_corpus \<noteq> [] \<and> BM25 example_corpus 1.5 0.75 0 = Inr example_index \<and>
   map_of (idf example_index) ''b'' = Some (ln (5 / 2) - ln (3 / 2)) \<and>
   map_of (t2d example_index) ''b'' = Some [(1, 1)] \<and>
   map_of (idf example_index) ''a'' = None \<and> map_of (t2d example_index) ''a'' = None"
proof -
  have df: "doc_freq example_corpus ''b'' = 1" "doc_freq example_corpus ''a'' = 2"
    by (simp_all add: doc_freq_def example_corpus_def)
  from idf_retention [OF example_lengths(1) example_built, of "''b''"]
    idf_retention [OF example_lengths(1) example_built, of "''a''"]
  show ?thesis
    using example_lengths(1) example_built
    by (simp add: df example_lengths(2) idf_value_def example_counted)
qed

lemma idf_value_le:
  assumes "0 < df" "df \<le> n"
  shows "idf_value (int n) df \<le> real n - 3 / 2"
proof -
  have a: "ln (real n - real df + 1 / 2) \<le> real n - real df + 1 / 2 - 1"
    using assms by (intro ln_le_minus_one) simp
  have b: "0 \<le> ln (real df + 1 / 2)"
    using assms by (intro ln_ge_zero) simp
  have c: "idf_value (int n) df = ln (real n - real df + 1 / 2) - ln (real df + 1 / 2)"
    using assms by (simp add: idf_value_def)
  have "1 \<le> real df" using assms by simp
  with a b c show ?thesis by linarith
qed

lemma small_corpus_fails:
  assumes "corpus \<noteq> []" "real (length corpus) - 3 / 2 \<le> pa"
  shows "BM25 corpus pk1 pb pa = Inl ZeroDivisionError"
proof (rule all_pruned_fails [OF assms(1)], intro allI impI)
  fix w assume "0 < doc_freq corpus w"
  from idf_value_le [OF this doc_freq_le] assms(2)
  show "idf_value (int (length corpus)) (doc_freq corpus w) \<le> pa" by simp
qed

lemma empty_documents_fail:
  assumes "corpus \<noteq> []" "\<forall>d\<in>set corpus. d = []"
  shows "BM25 corpus pk1 pb pa = Inl ZeroDivisionError"
proof (rule all_pruned_fails [OF assms(1)], intro allI impI)
  fix w assume "0 < doc_freq corpus w"
  then have "w \<in> \<Union> (set ` set corpus)" by (simp only: doc_freq_pos)
  then have False using assms(2) by auto
  then show "idf_value (int (length corpus)) (doc_freq corpus w) \<le> pa" ..
qed

text \<open>
  C7 fails on the code: when no term of a non-empty corpus has an IDF above \<open>alpha\<close>, the
  IDF table is empty and the mean of line 86 divides by its length, zero. This is so for
  the corpus of three documents that the specification gives as an example, with the
  default parameters.
\<close>

theorem all_terms_pruned_raises:
  "BM25 [[''the'', ''cat'', ''sat''], [''the'', ''dog'', ''ran''], [''cat'', ''cat'', ''ran'']]
     PARAM_K1 PARAM_B IDF_CUTOFF = Inl ZeroDivisionError"
  by (rule small_corpus_fails) (simp_all add: IDF_CUTOFF_def)

subsection \<open>Top-N retrieval\<close>

text \<open>
  C8. When the length of \<open>documents\<close> differs from \<open>corpus_size\<close>, \<open>get_top_n\<close> raises the
  assertion error and returns nothing; when the lengths are equal it never raises that
  error.
\<close>

theorem get_top_n_length_check:
  "(corpus_size self \<noteq> int (length documents) \<longrightarrow>
      get_top_n self iter q documents n = Inl AssertionError) \<and>
   (corpus_size self = int (length documents) \<longrightarrow>
      get_top_n self iter q documents n \<noteq> Inl AssertionError)"
proof -
  have "top_indexes self iter q n \<noteq> Inl AssertionError"
    unfolding top_indexes_def using nlargest_Inl get_score_no_assert by metis
  moreover have "lookup_all documents idxs \<noteq> Inl AssertionError" for idxs
    using lookup_all_Inl [of documents idxs AssertionError] by auto
  ultimately show ?thesis
    by (auto simp: get_top_n_def split: sum.splits)
qed

theorem get_top_n_length_check_witness:
  "get_top_n example_index sorted_list_of_set [''c''] [''d0'', ''d1''] 5 = Inl AssertionError \<and>
   get_top_n example_index sorted_list_of_set [''c''] [''d0'', ''d1'', ''d2''] 5
     \<noteq> Inl AssertionError"
  using get_top_n_length_check [of example_index "[''d0'', ''d1'']" sorted_list_of_set "[''c'']" 5]
    get_top_n_length_check [of example_index "[''d0'', ''d1'', ''d2'']" sorted_list_of_set "[''c'']" 5]
  by (simp add: example_corpus_size)

text \<open>
  C10. Whatever the order in which the candidate set is iterated, the indices that
  \<open>get_top_n\<close> selects are pairwise different members of the candidate set, and the result
  is the list of their documents: no corpus position is returned twice, also when several
  query terms, or a repeated one, have postings there.
\<close>

theorem get_top_n_no_duplicates:
  assumes "set_order iter" "get_top_n self iter q documents n = Inr r"
  shows "\<exists>idxs. top_indexes self iter q n = Inr idxs \<and> distinct idxs \<and>
           set idxs \<subseteq> indexes self q \<and> length r = length idxs \<and>
           (\<forall>k<length idxs. py_index documents (idxs ! k) = Inr (r ! k))"
proof -
  from assms(2) obtain idxs where t: "top_indexes self iter q n = Inr idxs"
    and l: "lookup_all documents idxs = Inr r"
    by (auto simp: get_top_n_def split: if_splits sum.splits)
  have it: "set (iter (indexes self q)) = indexes self q" "distinct (iter (indexes self q))"
    using assms(1) finite_indexes [of self q] by (auto simp: set_order_def)
  from t have nl: "nlargest n (iter (indexes self q)) (\<lambda>idx. get_score self q idx) = Inr idxs"
    by (simp add: top_indexes_def)
  have "distinct idxs" "set idxs \<subseteq> indexes self q"
    using nlargest_Inr(2,3) [OF nl it(2)] it(1) by auto
  then show ?thesis using t lookup_all_Inr [OF l] by auto
qed

theorem get_top_n_no_duplicates_witness:
  "set_order sorted_list_of_set \<and>
   get_top_n example_index sorted_list_of_set [''c'', ''b'', ''c''] [''d0'', ''d1'', ''d2''] 5 =
     Inr [''d2'', ''d1''] \<and>
   (\<exists>idxs. top_indexes example_index sorted_list_of_set [''c'', ''b'', ''c''] 5 = Inr idxs \<and>
      distinct idxs \<and> length [''d2'', ''d1''] = length idxs)"
  using get_top_n_no_duplicates [OF set_order_sorted_list example_get_top_n]
    set_order_sorted_list example_get_top_n
  by blast

text \<open>
  C2, as amended. On an index constructed with \<open>k1 \<ge> 0\<close> and \<open>0 \<le> b \<le> 1\<close>, with a
  documents list as long as the corpus and any iteration order of the candidate set,
  \<open>get_top_n\<close> returns a list of exactly \<open>min (n, size of the candidate set)\<close> entries when
  \<open>n \<ge> 0\<close>, hence at most \<open>n\<close>, and the empty list when \<open>n < 0\<close>. The entries are the
  documents at pairwise different positions of the candidate set, every candidate has a
  score, the entries are in descending order of score, and no candidate left out scores
  higher than a returned one.
\<close>

theorem get_top_n_contract:
  assumes "BM25 corpus pk1 pb pa = Inr ix" "0 \<le> pk1" "0 \<le> pb" "pb \<le> 1"
    and "int (length documents) = corpus_size ix" "set_order iter"
  shows "\<exists>idxs. get_top_n ix iter q documents n = Inr (map (\<lambda>i. documents ! nat i) idxs) \<and>
           length idxs = min (nat n) (card (indexes ix q)) \<and>
           distinct idxs \<and> set idxs \<subseteq> indexes ix q \<and>
           (\<forall>i\<in>set idxs. 0 \<le> i \<and> i < int (length documents)) \<and>
           (\<forall>i\<in>indexes ix q. get_score ix q i = Inr (score_of ix q i)) \<and>
           sorted_wrt (\<lambda>i j. score_of ix q j \<le> score_of ix q i) idxs \<and>
           (\<forall>i\<in>set idxs. \<forall>j\<in>indexes ix q - set idxs. score_of ix q j \<le> score_of ix q i)"
proof -
  let ?xs = "iter (indexes ix q)"
  let ?key = "\<lambda>idx. get_score ix q idx"
  have it: "set ?xs = indexes ix q" "distinct ?xs"
    using assms(6) finite_indexes [of ix q] by (auto simp: set_order_def)
  have range: "\<forall>i\<in>indexes ix q. 0 \<le> i \<and> i < corpus_size ix"
    using constructed_indexes_range [OF assms(1)] by blast
  have sc: "score_of ix q = key_value ?key" by (simp add: score_of_def fun_eq_iff)
  have keys: "\<forall>i\<in>indexes ix q. get_score ix q i = Inr (score_of ix q i)"
  proof
    fix i assume "i \<in> indexes ix q"
    then have "0 \<le> i" "i < corpus_size ix" using range by auto
    from constructed_score_sum [OF assms(1-4) this, of q]
    show "get_score ix q i = Inr (score_of ix q i)"
      by (simp add: score_of_def key_value_def)
  qed
  then have "\<forall>x\<in>set ?xs. \<exists>v. ?key x = Inr v" using it(1) by auto
  then obtain idxs where nl: "nlargest n ?xs ?key = Inr idxs"
    using nlargest_total [of ?xs ?key n] by blast
  note P = nlargest_Inr [OF nl it(2)]
  have "length ?xs = card (indexes ix q)" using distinct_card [OF it(2)] it(1) by simp
  then have 1: "length idxs = min (nat n) (card (indexes ix q))"
    using nlargest_length [OF nl] by simp
  have 2: "distinct idxs" by (rule P(3))
  have 3: "set idxs \<subseteq> indexes ix q" using P(2) it(1) by simp
  then have 4: "\<forall>i\<in>set idxs. 0 \<le> i \<and> i < int (length documents)"
    using range assms(5) by auto
  have 0: "get_top_n ix iter q documents n = Inr (map (\<lambda>i. documents ! nat i) idxs)"
    using lookup_all_in_range [OF 4] nl assms(5) by (simp add: get_top_n_def top_indexes_def)
  have 5: "sorted_wrt (\<lambda>i j. score_of ix q j \<le> score_of ix q i) idxs"
    using P(4) unfolding sc .
  have 6: "\<forall>i\<in>set idxs. \<forall>j\<in>indexes ix q - set idxs. score_of ix q j \<le> score_of ix q i"
    using P(5) unfolding sc it(1) .
  from 0 1 2 3 4 keys 5 6 show ?thesis by (intro exI [of _ idxs] conjI)
qed

theorem get_top_n_contract_witness:
  "BM25 example_corpus 1.5 0.75 0 = Inr example_index \<and>
   int (length [''d0'', ''d1'', ''d2'']) = corpus_size example_index \<and>
   set_order sorted_list_of_set \<and>
   get_top_n example_index sorted_list_of_set [''c'', ''b'', ''c''] [''d0'', ''d1'', ''d2''] 5 =
     Inr [''d2'', ''d1''] \<and>
   (\<exists>idxs. [''d2'', ''d1''] = map (\<lambda>i. [''d0'', ''d1'', ''d2''] ! nat i) idxs \<and>
      length idxs = 2 \<and> distinct idxs \<and>
      sorted_wrt (\<lambda>i j. score_of example_index [''c'', ''b'', ''c''] j
                         \<le> score_of example_index [''c'', ''b'', ''c''] i) idxs)"
proof -
  have l: "int (length [''d0'', ''d1'', ''d2'']) = corpus_size example_index"
    by (simp add: example_corpus_size)
  have p: "(0::real) \<le> 1.5" "(0::real) \<le> 0.75" "(0.75::real) \<le> 1" by simp_all
  note T = get_top_n_contract [OF example_built p l set_order_sorted_list,
      of "[''c'', ''b'', ''c'']" 5]
  from T obtain idxs where
    "get_top_n example_index sorted_list_of_set [''c'', ''b'', ''c''] [''d0'', ''d1'', ''d2''] 5 =
       Inr (map (\<lambda>i. [''d0'', ''d1'', ''d2''] ! nat i) idxs)"
    "length idxs = min (nat 5) (card (indexes example_index [''c'', ''b'', ''c'']))"
    "distinct idxs"
    "sorted_wrt (\<lambda>i j. score_of example_index [''c'', ''b'', ''c''] j
                         \<le> score_of example_index [''c'', ''b'', ''c''] i) idxs"
    by (elim exE conjE) (rule that; assumption)
  then have "[''d2'', ''d1''] = map (\<lambda>i. [''d0'', ''d1'', ''d2''] ! nat i) idxs"
    "length idxs = 2" "distinct idxs"
    "sorted_wrt (\<lambda>i j. score_of example_index [''c'', ''b'', ''c''] j
                         \<le> score_of example_index [''c'', ''b'', ''c''] i) idxs"
    by (simp_all add: example_get_top_n example_indexes)
  then have "\<exists>idxs. [''d2'', ''d1''] = map (\<lambda>i. [''d0'', ''d1'', ''d2''] ! nat i) idxs \<and>
      length idxs = 2 \<and> distinct idxs \<and>
      sorted_wrt (\<lambda>i j. score_of example_index [''c'', ''b'', ''c''] j
                         \<le> score_of example_index [''c'', ''b'', ''c''] i) idxs"
    by (intro exI [of _ idxs] conjI)
  with example_built l set_order_sorted_list example_get_top_n show ?thesis by (intro conjI)
qed

text \<open>
  C2, as stated, fails, in two ways. With \<open>k1 = -1\<close>, \<open>b = 0\<close> and \<open>alpha = -1\<close> the corpus
  \<open>[[a], [b], [c]]\<close> gives an index on which scoring a candidate divides by \<open>1 + (-1) = 0\<close>,
  so \<open>get_top_n\<close> with a documents list of the right length raises the division error and
  returns nothing. And for a negative \<open>n\<close> the result is the empty list, whose length 0 is
  more than \<open>n\<close>.
\<close>

theorem get_top_n_contract_counterexample:
  "BM25 [[''a''], [''b''], [''c'']] (- 1) 0 (- 1) = Inr singles_index \<and>
   int (length [''d0'', ''d1'', ''d2'']) = corpus_size singles_index \<and>
   get_top_n singles_index sorted_list_of_set [''a'', ''b''] [''d0'', ''d1'', ''d2''] 5 =
     Inl ZeroDivisionError \<and>
   get_top_n example_index sorted_list_of_set [''c'', ''b'', ''c''] [''d0'', ''d1'', ''d2''] (- 1) =
     Inr [] \<and>
   - 1 < int (length ([] :: string list))"
proof -
  have c: "counted [[''a''], [''b''], [''c'']] =
      [(''a'', [(0, 1)]), (''b'', [(1, 1)]), (''c'', [(2, 1)])]"
    by (simp add: counted_def add_word_def)
  have "0 < ln (5 / 2) - ln (3 / 2 :: real)" by simp
  then have g: "- 1 < ln (5 / 2) - ln (3 / 2 :: real)" by linarith
  have 1: "BM25 [[''a''], [''b''], [''c'']] (- 1) 0 (- 1) = Inr singles_index"
    by (simp add: BM25_eq built_def c kept_def idf_value_def singles_index_def g)
  have 2: "int (length [''d0'', ''d1'', ''d2'']) = corpus_size singles_index"
    by (simp add: corpus_size_def singles_index_def)
  have i: "sorted_list_of_set (indexes singles_index [''a'', ''b'']) = [0, 1]"
  proof -
    have "indexes singles_index [''a'', ''b''] = {0, 1}"
      by (auto simp: indexes_def singles_index_def)
    then show ?thesis by simp
  qed
  have s: "get_score singles_index [''a'', ''b''] 0 = Inl ZeroDivisionError"
    by (simp add: get_score_def py_index_def py_div_def singles_index_def)
  have 3: "get_top_n singles_index sorted_list_of_set [''a'', ''b''] [''d0'', ''d1'', ''d2''] 5 =
      Inl ZeroDivisionError"
    using 2 by (simp add: get_top_n_def top_indexes_def nlargest_def i s)
  have 4: "get_top_n example_index sorted_list_of_set [''c'', ''b'', ''c'']
      [''d0'', ''d1'', ''d2''] (- 1) = Inr []"
    by (simp add: get_top_n_def top_indexes_def nlargest_def example_corpus_size)
  have 5: "- 1 < int (length ([] :: string list))" by simp
  from 1 2 3 4 5 show ?thesis by (intro conjI)
qed

subsection \<open>Persistence\<close>

lemma str_int_examples:
  "str_int 120 = ''120''" "str_int (- 7) = ''-7''" "str_int 0 = ''0''"
  by (simp_all add: str_int_def str_nat.simps digit_char_def)

lemma py_int_examples:
  "py_int ''120'' = Inr 120" "py_int ''-7'' = Inr (- 7)" "py_int ''x1'' = Inl ValueError"
  "py_int [] = Inl ValueError"
  by (simp_all add: py_int_def parse_nat_def digit_val_def)

lemma example_dump:
  "j_t2d (json_dump example_index) = [(''b'', [(''1'', 1)]), (''c'', [(''2'', 1)])]"
  by (simp add: json_dump_def example_index_def str_int_def str_nat.simps digit_char_def)

text \<open>
  C3. For every index whose posting tables are dicts (no document position occurs twice
  as a key), loading what \<open>save\<close> wrote returns an index with the same posting table, its
  keys integers again, and the same result of \<open>get_score\<close> on every query and every
  document position.
\<close>

theorem load_save_scores:
  assumes "\<forall>e\<in>set (t2d x). distinct (map fst (snd e))"
  shows "\<exists>x'. load name (save x name fs) = Inr x' \<and> t2d x' = t2d x \<and>
           (\<forall>q i. get_score x' q i = get_score x q i)"
  using load_save [OF assms, of name fs] by (simp add: get_score_average_idf)

theorem load_save_scores_witness:
  "j_t2d (json_dump example_index) = [(''b'', [(''1'', 1)]), (''c'', [(''2'', 1)])] \<and>
   (\<exists>x'. load ''index'' (save example_index ''index'' Map.empty) = Inr x' \<and>
      t2d x' = [(''b'', [(1, 1)]), (''c'', [(2, 1)])] \<and>
      get_score x' [''c'', ''b'', ''c''] 2 = Inr ((ln (5 / 2) - ln (3 / 2)) * (80 / 49)))"
proof -
  have d: "\<forall>e\<in>set (t2d example_index). distinct (map fst (snd e))"
    by (simp add: example_index_def)
  have t: "t2d example_index = [(''b'', [(1, 1)]), (''c'', [(2, 1)])]"
    by (simp add: example_index_def)
  from load_save_scores [OF d, of "''index''" Map.empty]
  have "\<exists>x'. load ''index'' (save example_index ''index'' Map.empty) = Inr x' \<and>
      t2d x' = [(''b'', [(1, 1)]), (''c'', [(2, 1)])] \<and>
      get_score x' [''c'', ''b'', ''c''] 2 = Inr ((ln (5 / 2) - ln (3 / 2)) * (80 / 49))"
    unfolding t by (metis example_score_2)
  with example_dump show ?thesis by (intro conjI)
qed

subsection \<open>Raising a term frequency\<close>




end
